theory Spec2Isabelle
  imports Main "HOL-Library.Word"
begin

section \<open>JavaScript strings\<close>

text \<open>
  A JavaScript string is a sequence of 16-bit code units. All string operations of
  \<^verbatim>\<open>src/main.ts\<close> (\<^verbatim>\<open>length\<close>, \<^verbatim>\<open>indexOf\<close>, \<^verbatim>\<open>slice\<close>, regular expressions without the
  \<^verbatim>\<open>u\<close> flag) count and compare code units, so the model does the same.
\<close>

type_synonym jsstring = "16 word list"

definition js :: "string \<Rightarrow> jsstring" where
  "js s = map of_char s"

subsection \<open>Numbers printed in template literals\<close>

text \<open>
  \<^verbatim>\<open>`${Date.now()}`\<close> prints an integral Number in decimal, with a leading minus sign
  when it is negative. \<^verbatim>\<open>Date.now()\<close> is always integral and far below the magnitude
  where Number printing switches to exponent notation.
\<close>

definition digit_unit :: "nat \<Rightarrow> 16 word" where
  "digit_unit d = of_nat (48 + d)"

function digits :: "int \<Rightarrow> jsstring" where
  "digits n = (if n < 10 then [digit_unit (nat n)] else digits (n div 10) @ [digit_unit (nat (n mod 10))])"
  by pat_completeness auto
termination
  by (relation "measure nat") auto

declare digits.simps [simp del]

definition number_toString :: "int \<Rightarrow> jsstring" where
  "number_toString i = (if i < 0 then js ''-'' @ digits (- i) else digits i)"

subsection \<open>\<^verbatim>\<open>String.prototype.slice\<close> with non-negative arguments\<close>

definition slice :: "nat \<Rightarrow> nat \<Rightarrow> jsstring \<Rightarrow> jsstring" where
  "slice b e s = drop b (take e s)"

section \<open>Placeholder tokens (main.ts line 139)\<close>

text \<open>
  \<^verbatim>\<open>const token = `{{TOS_UPLOADING:${Date.now()}-${Math.random().toString(36).slice(2, 8)}}}`;\<close>

  The two sources of the token are inputs of the model: \<open>now\<close> is the value of
  \<^verbatim>\<open>Date.now()\<close> and \<open>rnd36\<close> is the string \<^verbatim>\<open>Math.random().toString(36)\<close>. The random
  suffix is \<open>slice 2 8 rnd36\<close>.
\<close>

definition random_suffix :: "jsstring \<Rightarrow> jsstring" where
  "random_suffix rnd36 = slice 2 8 rnd36"

definition make_token :: "int \<Rightarrow> jsstring \<Rightarrow> jsstring" where
  "make_token now rnd36 =
     js ''{{TOS_UPLOADING:'' @ number_toString now @ js ''-'' @ random_suffix rnd36 @ js ''}}''"

section \<open>Facts about decimal printing\<close>

definition is_digit :: "16 word \<Rightarrow> bool" where
  "is_digit c = (48 \<le> c \<and> c \<le> 57)"

fun digit_value :: "jsstring \<Rightarrow> int" where
  "digit_value cs = foldl (\<lambda>a c. 10 * a + (uint c - 48)) 0 cs"

lemma unat_digit_unit: "d < 10 \<Longrightarrow> unat (digit_unit d) = 48 + d"
  unfolding digit_unit_def unat_of_nat by simp

lemma uint_digit_unit: "d < 10 \<Longrightarrow> uint (digit_unit d) = 48 + int d"
  by (simp add: uint_nat unat_digit_unit)

lemma is_digit_digit_unit: "d < 10 \<Longrightarrow> is_digit (digit_unit d)"
proof -
  assume d: "d < 10"
  have "unat (48 :: 16 word) \<le> unat (digit_unit d)" "unat (digit_unit d) \<le> unat (57 :: 16 word)"
    using d by (simp_all add: unat_digit_unit)
  then show ?thesis
    unfolding is_digit_def by (simp only: word_le_nat_alt)
qed

lemma digits_all_digit: "\<forall>c \<in> set (digits n). is_digit c"
proof (induction n rule: digits.induct)
  case (1 n)
  show ?case
  proof (cases "n < 10")
    case True
    then show ?thesis by (simp add: digits.simps [of n] is_digit_digit_unit)
  next
    case False
    then have "nat (n mod 10) < 10" by simp
    then show ?thesis
      using "1" False by (simp add: digits.simps [of n] is_digit_digit_unit)
  qed
qed

lemma digits_nonempty: "digits n \<noteq> []"
  by (subst digits.simps) simp

lemma digit_value_snoc: "digit_value (cs @ [c]) = 10 * digit_value cs + (uint c - 48)"
  by simp

lemma digit_value_digits: "0 \<le> n \<Longrightarrow> digit_value (digits n) = n"
proof (induction n rule: digits.induct)
  case (1 n)
  show ?case
  proof (cases "n < 10")
    case True
    with "1.prems" have "nat n < 10" by simp
    then show ?thesis using True "1.prems" by (simp add: digits.simps [of n] uint_digit_unit)
  next
    case False
    then have m: "nat (n mod 10) < 10" by simp
    have "digit_value (digits n) = 10 * digit_value (digits (n div 10)) + (uint (digit_unit (nat (n mod 10))) - 48)"
      using False by (subst digits.simps) (simp del: digit_value.simps add: digit_value_snoc)
    also have "\<dots> = 10 * (n div 10) + n mod 10"
      using "1.IH" False "1.prems" m by (simp del: digit_value.simps add: uint_digit_unit)
    finally show ?thesis by simp
  qed
qed

lemma digits_inj: "0 \<le> a \<Longrightarrow> 0 \<le> b \<Longrightarrow> digits a = digits b \<Longrightarrow> a = b"
  by (metis digit_value_digits)

lemma split_at_first_nondigit:
  assumes "xs @ x # r = ys @ y # r'"
    and "\<forall>c \<in> set xs. P c" and "\<forall>c \<in> set ys. P c" and "\<not> P x" and "\<not> P y"
  shows "xs = ys \<and> r = r'"
proof -
  have "takeWhile P (xs @ x # r) = xs" "dropWhile P (xs @ x # r) = x # r"
    using assms(2,4) by (simp_all add: takeWhile_append2 dropWhile_append2)
  moreover have "takeWhile P (ys @ y # r') = ys" "dropWhile P (ys @ y # r') = y # r'"
    using assms(3,5) by (simp_all add: takeWhile_append2 dropWhile_append2)
  ultimately show ?thesis using assms(1) by simp
qed

lemma minus_not_digit: "\<not> is_digit 45"
  by (simp add: is_digit_def)

lemma number_toString_sep_inj:
  assumes "number_toString a @ js ''-'' @ r = number_toString b @ js ''-'' @ r'"
  shows "a = b \<and> r = r'"
proof -
  let ?m = "of_char CHR ''-'' :: 16 word"
  have hd_digit: "is_digit (hd (digits n))" for n
    using digits_all_digit [of n] digits_nonempty [of n] by (cases "digits n") auto
  consider (pp) "0 \<le> a" "0 \<le> b" | (nn) "a < 0" "b < 0" | (pn) "0 \<le> a" "b < 0" | (np) "a < 0" "0 \<le> b"
    by linarith
  then show ?thesis
  proof cases
    case pp
    then have "digits a @ ?m # r = digits b @ ?m # r'"
      using assms by (simp add: number_toString_def js_def)
    then have "digits a = digits b \<and> r = r'"
      by (rule split_at_first_nondigit [where P = is_digit]) (simp_all add: digits_all_digit minus_not_digit)
    then show ?thesis using pp digits_inj [of a b] by simp
  next
    case nn
    then have "digits (- a) @ ?m # r = digits (- b) @ ?m # r'"
      using assms by (simp add: number_toString_def js_def)
    then have "digits (- a) = digits (- b) \<and> r = r'"
      by (rule split_at_first_nondigit [where P = is_digit]) (simp_all add: digits_all_digit minus_not_digit)
    then show ?thesis using nn digits_inj [of "- a" "- b"] by simp
  next
    case pn
    then have "digits a @ ?m # r = ?m # digits (- b) @ ?m # r'"
      using assms by (simp add: number_toString_def js_def)
    then have "hd (digits a @ ?m # r) = ?m"
      by simp
    then have "hd (digits a) = ?m"
      by (simp add: digits_nonempty)
    then show ?thesis using hd_digit [of a] minus_not_digit by simp
  next
    case np
    then have "digits b @ ?m # r' = ?m # digits (- a) @ ?m # r"
      using assms by (simp add: number_toString_def js_def)
    then have "hd (digits b @ ?m # r') = ?m"
      by simp
    then have "hd (digits b) = ?m"
      by (simp add: digits_nonempty)
    then show ?thesis using hd_digit [of b] minus_not_digit by simp
  qed
qed

section \<open>Strings: search, replace, split, join\<close>

text \<open>
  \<^verbatim>\<open>s.indexOf(pat)\<close>: the least index at which \<open>pat\<close> occurs in \<open>s\<close>; \<open>None\<close> stands
  for the result \<^verbatim>\<open>-1\<close>.
\<close>

fun indexOf :: "jsstring \<Rightarrow> jsstring \<Rightarrow> nat option" where
  "indexOf [] pat = (if pat = [] then Some 0 else None)"
| "indexOf (c # cs) pat =
     (if take (length pat) (c # cs) = pat then Some 0 else map_option Suc (indexOf cs pat))"

definition js_includes :: "jsstring \<Rightarrow> jsstring \<Rightarrow> bool" where
  "js_includes s pat = (indexOf s pat \<noteq> None)"

text \<open>
  \<^verbatim>\<open>s.replace(pat, repl)\<close> with a string pattern replaces the first occurrence only. Every
  call in main.ts passes the replacement \<^verbatim>\<open>""\<close>, which has no \<^verbatim>\<open>$\<close> patterns.
\<close>

definition replace_string :: "jsstring \<Rightarrow> jsstring \<Rightarrow> jsstring \<Rightarrow> jsstring" where
  "replace_string s pat repl =
     (case indexOf s pat of None \<Rightarrow> s | Some i \<Rightarrow> take i s @ repl @ drop (i + length pat) s)"

text \<open>\<^verbatim>\<open>s.split(sep)\<close> and \<^verbatim>\<open>parts.join(sep)\<close> for a separator of one code unit.\<close>

fun split :: "16 word \<Rightarrow> jsstring \<Rightarrow> jsstring list" where
  "split sep [] = [[]]"
| "split sep (c # cs) =
     (if c = sep then [] # split sep cs
      else (case split sep cs of [] \<Rightarrow> [[c]] | p # ps \<Rightarrow> (c # p) # ps))"

fun join :: "16 word \<Rightarrow> jsstring list \<Rightarrow> jsstring" where
  "join sep [] = []"
| "join sep [p] = p"
| "join sep (p # q # ps) = p @ sep # join sep (q # ps)"

definition slash :: "16 word" where "slash = 0x2F"
definition dot :: "16 word" where "dot = 0x2E"
definition newline :: "16 word" where "newline = 0x0A"

section \<open>Regular expressions\<close>

text \<open>
  The regular expressions of main.ts are matched by a backtracking matcher that follows
  the ECMAScript pattern semantics: a matcher maps a state (the rest of the input and the
  captures, the most recent first) to the list of states it can end in, in the order in
  which backtracking tries them. The first element is the match that \<^verbatim>\<open>exec\<close> reports. The whole input \<open>s\<close> is
  passed along for the assertions \<^verbatim>\<open>^\<close>, \<^verbatim>\<open>$\<close> and for the capture offsets; the current
  index is \<open>length s - length rest\<close>.

  Only the constructs that occur in main.ts are modelled. The quantifiers \<^verbatim>\<open>?\<close>, \<^verbatim>\<open>*\<close> and
  \<^verbatim>\<open>*?\<close> reject an iteration that consumes nothing, as RepeatMatcher does.
\<close>

type_synonym captures = "(nat \<times> nat \<times> nat) list"
type_synonym mstate = "jsstring \<times> captures"

datatype regex =
    Eps
  | Chr "16 word"
  | Dot
  | Bol
  | Eol
  | Seq regex regex
  | Alt regex regex
  | Opt regex
  | Star regex
  | LazyStar regex
  | Group nat regex

text \<open>
  With the \<^verbatim>\<open>i\<close> flag and without the \<^verbatim>\<open>u\<close> flag two code units match when their
  Canonicalize values are equal. Canonicalize upper-cases a code unit, but leaves a
  non-ASCII code unit unchanged when its upper case would be ASCII. All pattern characters
  of main.ts are ASCII, and against an ASCII pattern character this is equality up to the
  case of the ASCII letters.
\<close>

definition ascii_upper :: "16 word \<Rightarrow> 16 word" where
  "ascii_upper c = (if 97 \<le> c \<and> c \<le> 122 then c - 32 else c)"

definition char_matches :: "bool \<Rightarrow> 16 word \<Rightarrow> 16 word \<Rightarrow> bool" where
  "char_matches ic p c = (if ic then ascii_upper p = ascii_upper c else p = c)"

text \<open>\<^verbatim>\<open>.\<close> without the \<^verbatim>\<open>s\<close> flag matches every code unit but the line terminators.\<close>

definition line_terminator :: "16 word \<Rightarrow> bool" where
  "line_terminator c = (c = 0x0A \<or> c = 0x0D \<or> c = 0x2028 \<or> c = 0x2029)"

definition progress :: "mstate \<Rightarrow> mstate \<Rightarrow> bool" where
  "progress st st' = (length (fst st') < length (fst st))"

function rmatch :: "bool \<Rightarrow> regex \<Rightarrow> jsstring \<Rightarrow> mstate \<Rightarrow> mstate list" where
  "rmatch ic Eps s st = [st]"
| "rmatch ic (Chr p) s st =
     (case fst st of [] \<Rightarrow> [] | c # cs \<Rightarrow> if char_matches ic p c then [(cs, snd st)] else [])"
| "rmatch ic Dot s st =
     (case fst st of [] \<Rightarrow> [] | c # cs \<Rightarrow> if line_terminator c then [] else [(cs, snd st)])"
| "rmatch ic Bol s st = (if length (fst st) = length s then [st] else [])"
| "rmatch ic Eol s st = (if fst st = [] then [st] else [])"
| "rmatch ic (Seq a b) s st = concat (map (rmatch ic b s) (rmatch ic a s st))"
| "rmatch ic (Alt a b) s st = rmatch ic a s st @ rmatch ic b s st"
| "rmatch ic (Opt a) s st = filter (progress st) (rmatch ic a s st) @ [st]"
| "rmatch ic (Star a) s st =
     concat (map (rmatch ic (Star a) s) (filter (progress st) (rmatch ic a s st))) @ [st]"
| "rmatch ic (LazyStar a) s st =
     st # concat (map (rmatch ic (LazyStar a) s) (filter (progress st) (rmatch ic a s st)))"
| "rmatch ic (Group k a) s st =
     map (\<lambda>st'. (fst st',
                  (k, length s - length (fst st), length s - length (fst st')) # snd st'))
       (rmatch ic a s st)"
  by pat_completeness auto
termination
  by (relation "inv_image (less_than <*lex*> less_than) (\<lambda>(ic, r, s, st). (size r, length (fst st)))")
     (auto simp: progress_def)

definition seqs :: "regex list \<Rightarrow> regex" where
  "seqs rs = foldr Seq rs Eps"

definition alts :: "regex \<Rightarrow> regex list \<Rightarrow> regex" where
  "alts r rs = foldl Alt r rs"

definition lit :: "string \<Rightarrow> regex" where
  "lit str = seqs (map Chr (js str))"

text \<open>\<^verbatim>\<open>a+\<close> is one mandatory \<open>a\<close> followed by \<^verbatim>\<open>a*\<close>.\<close>

definition Plus :: "regex \<Rightarrow> regex" where
  "Plus a = Seq a (Star a)"

subsection \<open>\<^verbatim>\<open>exec\<close>, \<^verbatim>\<open>matchAll\<close> and \<^verbatim>\<open>replace\<close>\<close>

record jsmatch =
  index :: nat
  endIndex :: nat
  groups :: captures

text \<open>
  RegExpBuiltinExec without the sticky flag: starting at \<open>lastIndex\<close>, try each index in
  turn until the matcher succeeds or the index passes the end of the input.
\<close>

function exec :: "bool \<Rightarrow> regex \<Rightarrow> jsstring \<Rightarrow> nat \<Rightarrow> jsmatch option" where
  "exec ic r s lastIndex =
     (if length s < lastIndex then None
      else (case rmatch ic r s (drop lastIndex s, []) of
              [] \<Rightarrow> exec ic r s (Suc lastIndex)
            | st # _ \<Rightarrow> Some \<lparr>index = lastIndex, endIndex = length s - length (fst st),
                             groups = snd st\<rparr>))"
  by pat_completeness auto
termination
  by (relation "measure (\<lambda>(ic, r, s, i). Suc (length s) - i)") auto

declare exec.simps [simp del]

definition matched :: "jsstring \<Rightarrow> jsmatch \<Rightarrow> jsstring" where
  "matched s m = drop (index m) (take (endIndex m) s)"

definition group :: "jsstring \<Rightarrow> jsmatch \<Rightarrow> nat \<Rightarrow> jsstring" where
  "group s m k = (case map_of (groups m) k of None \<Rightarrow> [] | Some (b, e) \<Rightarrow> drop b (take e s))"

section \<open>The matcher only moves forward\<close>

declare rmatch.simps(9,10) [simp del]

lemma rmatch_suffix:
  "st' \<in> set (rmatch ic r s st) \<Longrightarrow> \<exists>ys. fst st = ys @ fst st'"
proof (induction ic r s st arbitrary: st' rule: rmatch.induct)
  case (1 ic s st)
  then show ?case by simp
next
  case (2 ic p s st)
  then show ?case by (cases "fst st") (auto split: if_splits)
next
  case (3 ic s st)
  then show ?case by (cases "fst st") (auto split: if_splits)
next
  case (4 ic s st)
  then show ?case by (simp split: if_splits)
next
  case (5 ic s st)
  then show ?case by (simp split: if_splits)
next
  case (6 ic a b s st)
  from "6.prems" obtain m where m: "m \<in> set (rmatch ic a s st)" "st' \<in> set (rmatch ic b s m)"
    by auto
  from "6.IH"(1) [OF m(1)] obtain ys where ys: "fst st = ys @ fst m" ..
  from "6.IH"(2) [OF m(1) m(2)] obtain zs where zs: "fst m = zs @ fst st'" ..
  from ys zs have "fst st = (ys @ zs) @ fst st'" by simp
  then show ?case ..
next
  case (7 ic a b s st)
  from "7.prems" have "st' \<in> set (rmatch ic a s st) \<or> st' \<in> set (rmatch ic b s st)"
    by simp
  then show ?case using "7.IH" by blast
next
  case (8 ic a s st)
  from "8.prems" have "st' \<in> set (rmatch ic a s st) \<or> st' = st"
    by auto
  then show ?case
  proof
    assume "st' \<in> set (rmatch ic a s st)"
    then show ?thesis by (rule "8.IH")
  next
    assume "st' = st"
    then show ?thesis by simp
  qed
next
  case (9 ic a s st)
  from "9.prems" consider "st' = st"
    | m where "m \<in> set (filter (progress st) (rmatch ic a s st))" "st' \<in> set (rmatch ic (Star a) s m)"
    by (subst (asm) rmatch.simps(9)) auto
  then show ?case
  proof cases
    case 1
    then show ?thesis by simp
  next
    case 2
    from 2(1) have ma: "m \<in> set (rmatch ic a s st)" by simp
    from "9.IH"(1) [OF ma] obtain ys where ys: "fst st = ys @ fst m" ..
    from "9.IH"(2) [OF 2(1) 2(2)] obtain zs where zs: "fst m = zs @ fst st'" ..
    from ys zs have "fst st = (ys @ zs) @ fst st'" by simp
    then show ?thesis ..
  qed
next
  case (10 ic a s st)
  from "10.prems" consider "st' = st"
    | m where "m \<in> set (filter (progress st) (rmatch ic a s st))" "st' \<in> set (rmatch ic (LazyStar a) s m)"
    by (subst (asm) rmatch.simps(10)) auto
  then show ?case
  proof cases
    case 1
    then show ?thesis by simp
  next
    case 2
    from 2(1) have ma: "m \<in> set (rmatch ic a s st)" by simp
    from "10.IH"(1) [OF ma] obtain ys where ys: "fst st = ys @ fst m" ..
    from "10.IH"(2) [OF 2(1) 2(2)] obtain zs where zs: "fst m = zs @ fst st'" ..
    from ys zs have "fst st = (ys @ zs) @ fst st'" by simp
    then show ?thesis ..
  qed
next
  case (11 ic k a s st)
  from "11.prems" obtain m where "m \<in> set (rmatch ic a s st)" "fst st' = fst m"
    by auto
  then show ?case using "11.IH" by metis
qed

lemma rmatch_length_le:
  "st' \<in> set (rmatch ic r s st) \<Longrightarrow> length (fst st') \<le> length (fst st)"
  by (drule rmatch_suffix) auto

lemma exec_bounds:
  "exec ic r s k = Some m \<Longrightarrow> k \<le> index m \<and> index m \<le> endIndex m \<and> endIndex m \<le> length s"
proof (induction ic r s k rule: exec.induct)
  case (1 ic r s k)
  show ?case
  proof (cases "rmatch ic r s (drop k s, [])")
    case Nil
    with "1.prems" have le: "\<not> length s < k" and "exec ic r s (Suc k) = Some m"
      by (auto simp: exec.simps [of ic r s k] split: if_splits)
    with "1.IH" Nil show ?thesis by fastforce
  next
    case (Cons st sts)
    with "1.prems" have le: "\<not> length s < k"
      and m: "m = \<lparr>index = k, endIndex = length s - length (fst st), groups = snd st\<rparr>"
      by (auto simp: exec.simps [of ic r s k] split: if_splits)
    have "length (fst st) \<le> length (drop k s)"
      using rmatch_length_le [of st ic r s "(drop k s, [])"] Cons by simp
    with le m show ?thesis by auto
  qed
qed

text \<open>
  The result list of \<^verbatim>\<open>String.prototype.matchAll\<close> and of the collecting loop of
  \<^verbatim>\<open>RegExp.prototype[Symbol.replace]\<close> for a global regular expression: \<^verbatim>\<open>exec\<close> is
  called again from the end of the previous match, one further when that match was empty.
\<close>

function matchAll_from :: "bool \<Rightarrow> regex \<Rightarrow> jsstring \<Rightarrow> nat \<Rightarrow> jsmatch list" where
  "matchAll_from ic r s lastIndex =
     (case exec ic r s lastIndex of
        None \<Rightarrow> []
      | Some m \<Rightarrow>
          m # matchAll_from ic r s (if endIndex m = index m then Suc (endIndex m) else endIndex m))"
  by pat_completeness auto
termination
proof (relation "measure (\<lambda>(ic, r, s, i). Suc (length s) - i)", goal_cases)
  case 1
  show ?case by simp
next
  case (2 ic r s k m)
  from exec_bounds [OF 2] show ?case by auto
qed

declare matchAll_from.simps [simp del]

definition matchAll :: "bool \<Rightarrow> regex \<Rightarrow> jsstring \<Rightarrow> jsmatch list" where
  "matchAll ic r s = matchAll_from ic r s 0"

text \<open>
  \<^verbatim>\<open>s.replace(re, repl)\<close> for a replacement without \<^verbatim>\<open>$\<close> patterns. The results are
  processed in order; \<open>pos\<close> is nextSourcePosition and \<open>acc\<close> the accumulated result.
\<close>

fun replace_results :: "jsstring \<Rightarrow> jsstring \<Rightarrow> jsmatch list \<Rightarrow> nat \<Rightarrow> jsstring \<Rightarrow> jsstring" where
  "replace_results s repl [] pos acc = acc @ drop pos s"
| "replace_results s repl (m # ms) pos acc =
     (if pos \<le> index m
      then replace_results s repl ms (endIndex m) (acc @ drop pos (take (index m) s) @ repl)
      else replace_results s repl ms pos acc)"

definition replace_global :: "bool \<Rightarrow> regex \<Rightarrow> jsstring \<Rightarrow> jsstring \<Rightarrow> jsstring" where
  "replace_global ic r s repl = replace_results s repl (matchAll ic r s) 0 []"

definition replace_regex :: "bool \<Rightarrow> regex \<Rightarrow> jsstring \<Rightarrow> jsstring \<Rightarrow> jsstring" where
  "replace_regex ic r s repl =
     (case exec ic r s 0 of None \<Rightarrow> s | Some m \<Rightarrow> replace_results s repl [m] 0 [])"

section \<open>\<^verbatim>\<open>encodeURIComponent\<close> and \<^verbatim>\<open>decodeURIComponent\<close>\<close>

datatype js_error = URIError | TypeError | ClientError jsstring

text \<open>
  The characters that \<^verbatim>\<open>encodeURIComponent\<close> leaves as they are: ASCII letters and
  digits and \<^verbatim>\<open>- _ . ! ~ * ' ( )\<close>.
\<close>

definition unescaped :: "16 word \<Rightarrow> bool" where
  "unescaped c =
     ((65 \<le> c \<and> c \<le> 90) \<or> (97 \<le> c \<and> c \<le> 122) \<or> (48 \<le> c \<and> c \<le> 57)
      \<or> c \<in> set (js ''-_.!~*'' @ [0x27] @ js ''()''))"

definition lead_surrogate :: "16 word \<Rightarrow> bool" where
  "lead_surrogate c = (0xD800 \<le> c \<and> c \<le> 0xDBFF)"

definition trail_surrogate :: "16 word \<Rightarrow> bool" where
  "trail_surrogate c = (0xDC00 \<le> c \<and> c \<le> 0xDFFF)"

definition utf8 :: "int \<Rightarrow> int list" where
  "utf8 cp =
     (if cp < 0x80 then [cp]
      else if cp < 0x800 then [0xC0 + cp div 64, 0x80 + cp mod 64]
      else if cp < 0x10000 then [0xE0 + cp div 4096, 0x80 + cp div 64 mod 64, 0x80 + cp mod 64]
      else [0xF0 + cp div 262144, 0x80 + cp div 4096 mod 64, 0x80 + cp div 64 mod 64,
            0x80 + cp mod 64])"

definition hex_unit :: "int \<Rightarrow> 16 word" where
  "hex_unit n = of_int (if n < 10 then 48 + n else 55 + n)"

definition percent :: "16 word" where "percent = 0x25"

definition escape_octet :: "int \<Rightarrow> jsstring" where
  "escape_octet b = [percent, hex_unit (b div 16), hex_unit (b mod 16)]"

definition escape_code_point :: "int \<Rightarrow> jsstring" where
  "escape_code_point cp = concat (map escape_octet (utf8 cp))"

definition surrogate_pair_value :: "16 word \<Rightarrow> 16 word \<Rightarrow> int" where
  "surrogate_pair_value hi lo = (uint hi - 0xD800) * 0x400 + (uint lo - 0xDC00) + 0x10000"

text \<open>
  Encode of the ECMAScript specification: an unescaped code unit is copied; otherwise the
  code point at the current index is read, an unpaired surrogate raises URIError, and
  the UTF-8 octets of the code point are written as \<^verbatim>\<open>%XX\<close> with upper-case digits.
\<close>

fun encodeURIComponent :: "jsstring \<Rightarrow> js_error + jsstring" where
  "encodeURIComponent [] = Inr []"
| "encodeURIComponent [c] =
     (if unescaped c then Inr [c]
      else if lead_surrogate c \<or> trail_surrogate c then Inl URIError
      else Inr (escape_code_point (uint c)))"
| "encodeURIComponent (c # d # cs) =
     (if unescaped c then map_sum id ((#) c) (encodeURIComponent (d # cs))
      else if trail_surrogate c then Inl URIError
      else if lead_surrogate c then
        (if trail_surrogate d
         then map_sum id ((@) (escape_code_point (surrogate_pair_value c d))) (encodeURIComponent cs)
         else Inl URIError)
      else map_sum id ((@) (escape_code_point (uint c))) (encodeURIComponent (d # cs)))"

definition hex_value :: "16 word \<Rightarrow> int option" where
  "hex_value c =
     (if 48 \<le> c \<and> c \<le> 57 then Some (uint c - 48)
      else if 65 \<le> c \<and> c \<le> 70 then Some (uint c - 55)
      else if 97 \<le> c \<and> c \<le> 102 then Some (uint c - 87)
      else None)"

text \<open>
  One escape \<^verbatim>\<open>%XX\<close> at the head of the input: the octet and the rest of the input, or
  \<open>None\<close> where Decode raises URIError (too short, no \<^verbatim>\<open>%\<close>, or no hexadecimal digits).
\<close>

fun read_octet :: "jsstring \<Rightarrow> (int \<times> jsstring) option" where
  "read_octet (p # h # l # rest) =
     (if p = percent then
        (case (hex_value h, hex_value l) of
           (Some a, Some b) \<Rightarrow> Some (16 * a + b, rest)
         | _ \<Rightarrow> None)
      else None)"
| "read_octet _ = None"

fun read_octets :: "nat \<Rightarrow> jsstring \<Rightarrow> (int list \<times> jsstring) option" where
  "read_octets 0 s = Some ([], s)"
| "read_octets (Suc n) s =
     (case read_octet s of
        None \<Rightarrow> None
      | Some (b, rest) \<Rightarrow>
          (case read_octets n rest of None \<Rightarrow> None | Some (bs, rest') \<Rightarrow> Some (b # bs, rest')))"

text \<open>The number of leading 1 bits of an octet, as far as Decode distinguishes them.\<close>

definition leading_ones :: "int \<Rightarrow> nat" where
  "leading_ones b =
     (if b < 0x80 then 0 else if b < 0xC0 then 1 else if b < 0xE0 then 2
      else if b < 0xF0 then 3 else if b < 0xF8 then 4 else 5)"

definition continuation :: "int \<Rightarrow> bool" where
  "continuation b = (0x80 \<le> b \<and> b < 0xC0)"

text \<open>
  The code point of a well-formed UTF-8 sequence, \<open>None\<close> for every other octet sequence
  (a wrong continuation octet, an overlong form, a surrogate, a value above 0x10FFFF).
\<close>

fun utf8_value :: "int list \<Rightarrow> int option" where
  "utf8_value [a, b] =
     (let v = (a - 0xC0) * 64 + (b - 0x80)
      in if continuation b \<and> 0x80 \<le> v then Some v else None)"
| "utf8_value [a, b, c] =
     (let v = (a - 0xE0) * 4096 + (b - 0x80) * 64 + (c - 0x80)
      in if continuation b \<and> continuation c \<and> 0x800 \<le> v \<and> \<not> (0xD800 \<le> v \<and> v \<le> 0xDFFF)
         then Some v else None)"
| "utf8_value [a, b, c, d] =
     (let v = (a - 0xF0) * 262144 + (b - 0x80) * 4096 + (c - 0x80) * 64 + (d - 0x80)
      in if continuation b \<and> continuation c \<and> continuation d \<and> 0x10000 \<le> v \<and> v \<le> 0x10FFFF
         then Some v else None)"
| "utf8_value _ = None"

definition utf16 :: "int \<Rightarrow> jsstring" where
  "utf16 v =
     (if v \<le> 0xFFFF then [of_int v]
      else [of_int ((v - 0x10000) div 0x400 + 0xD800), of_int ((v - 0x10000) mod 0x400 + 0xDC00)])"

lemma read_octet_shorter: "read_octet s = Some (b, rest) \<Longrightarrow> length rest < length s"
  by (induction s rule: read_octet.induct) (auto split: if_splits option.splits)

lemma read_octets_shorter: "read_octets n s = Some (bs, rest) \<Longrightarrow> length rest \<le> length s"
proof (induction n arbitrary: s bs)
  case 0
  then show ?case by simp
next
  case (Suc n)
  then obtain b r bs' where r: "read_octet s = Some (b, r)" "read_octets n r = Some (bs', rest)"
    by (auto split: option.splits)
  from read_octet_shorter [OF r(1)] Suc.IH [OF r(2)] show ?case by simp
qed

text \<open>
  Decode with an empty set of preserved escapes. A code unit other than \<^verbatim>\<open>%\<close> is copied.
  At a \<^verbatim>\<open>%\<close> the first octet decides how many escapes belong together; they must form
  a well-formed UTF-8 sequence, whose code point is appended in UTF-16.
\<close>

function decodeURIComponent :: "jsstring \<Rightarrow> js_error + jsstring" where
  "decodeURIComponent [] = Inr []"
| "decodeURIComponent (c # cs) =
     (if c \<noteq> percent then map_sum id ((#) c) (decodeURIComponent cs)
      else (case read_octet (c # cs) of
              None \<Rightarrow> Inl URIError
            | Some (b, rest) \<Rightarrow>
                let n = leading_ones b in
                if n = 0 then map_sum id ((#) (of_int b)) (decodeURIComponent rest)
                else if n = 1 \<or> 4 < n then Inl URIError
                else (case read_octets (n - 1) rest of
                        None \<Rightarrow> Inl URIError
                      | Some (bs, rest') \<Rightarrow>
                          (case utf8_value (b # bs) of
                             None \<Rightarrow> Inl URIError
                           | Some v \<Rightarrow> map_sum id ((@) (utf16 v)) (decodeURIComponent rest')))))"
  by pat_completeness auto
termination
proof (relation "measure length", goal_cases)
  case 1
  show ?case by simp
next
  case (2 c cs)
  show ?case by simp
next
  case (3 c cs x b rest n)
  from read_octet_shorter [of "c # cs" b rest] 3 show ?case by simp
next
  case (4 c cs x b rest n x2 bs rest' v)
  from read_octet_shorter [of "c # cs" b rest] read_octets_shorter [of "n - 1" rest bs rest'] 4
  show ?case by simp
qed

section \<open>The \<^verbatim>\<open>URL\<close> constructor of the platform\<close>

text \<open>
  \<^verbatim>\<open>new URL(input).pathname\<close> is a service of the platform and a parameter of the model:
  a function \<open>U\<close> that returns \<open>None\<close> where the constructor raises TypeError and the
  path name otherwise.

  \<open>https_pathname\<close> writes out the URL Standard's parser for the inputs that matter
  here: the scheme \<^verbatim>\<open>https\<close>, a host of plain lower-case labels, and a path made of the
  characters that \<^verbatim>\<open>encodeURIComponent\<close> emits and \<^verbatim>\<open>/\<close>. For these the parser copies
  the path segment by segment, drops every single-dot segment and lets a double-dot segment
  remove the segment before it. On every other input \<open>https_pathname\<close> is \<open>None\<close> and says
  nothing. \<open>conforms U\<close> states that \<open>U\<close> agrees with the standard on these inputs.
\<close>

definition alnum_lower :: "16 word \<Rightarrow> bool" where
  "alnum_lower c = ((97 \<le> c \<and> c \<le> 122) \<or> (48 \<le> c \<and> c \<le> 57))"

definition host_unit :: "16 word \<Rightarrow> bool" where
  "host_unit c = (alnum_lower c \<or> c = 0x2D \<or> c = dot)"

definition host_label :: "jsstring \<Rightarrow> bool" where
  "host_label l =
     (l \<noteq> [] \<and> (\<forall>c \<in> set l. alnum_lower c \<or> c = 0x2D) \<and> alnum_lower (hd l) \<and> alnum_lower (last l)
      \<and> take 4 l \<noteq> js ''xn--'')"

definition plain_host :: "jsstring \<Rightarrow> bool" where
  "plain_host h =
     (let labels = split dot h
      in (\<forall>l \<in> set labels. host_label l) \<and> (\<forall>c \<in> set (last labels). 97 \<le> c \<and> c \<le> 122))"

definition path_unit :: "16 word \<Rightarrow> bool" where
  "path_unit c = (unescaped c \<or> c = percent \<or> c = slash)"

definition ascii_lower :: "16 word \<Rightarrow> 16 word" where
  "ascii_lower c = (if 65 \<le> c \<and> c \<le> 90 then c + 32 else c)"

definition single_dot :: "jsstring \<Rightarrow> bool" where
  "single_dot seg = (map ascii_lower seg \<in> {js ''.'', js ''%2e''})"

definition double_dot :: "jsstring \<Rightarrow> bool" where
  "double_dot seg = (map ascii_lower seg \<in> {js ''..'', js ''.%2e'', js ''%2e.'', js ''%2e%2e''})"

text \<open>
  The path state of the parser, one segment at a time; \<open>path\<close> is the URL's path so far.
  A dot segment that ends the input leaves an empty last segment.
\<close>

fun path_state :: "jsstring list \<Rightarrow> jsstring list \<Rightarrow> jsstring list" where
  "path_state path [] = path"
| "path_state path (seg # segs) =
     (if double_dot seg then path_state (butlast path @ (if segs = [] then [[]] else [])) segs
      else if single_dot seg then path_state (path @ (if segs = [] then [[]] else [])) segs
      else path_state (path @ [seg]) segs)"

definition serialize_path :: "jsstring list \<Rightarrow> jsstring" where
  "serialize_path path = concat (map ((#) slash) path)"

definition https_pathname :: "jsstring \<Rightarrow> jsstring option" where
  "https_pathname input =
     (let rest = drop 8 input; h = takeWhile host_unit rest; r = dropWhile host_unit rest
      in if take 8 input = js ''https://'' \<and> plain_host h \<and> (r = [] \<or> hd r = slash)
            \<and> (\<forall>c \<in> set r. path_unit c)
         then Some (serialize_path (path_state [] (split slash (tl r))))
         else None)"

definition conforms :: "(jsstring \<Rightarrow> jsstring option) \<Rightarrow> bool" where
  "conforms U = (\<forall>input p. https_pathname input = Some p \<longrightarrow> U input = Some p)"

text \<open>
  \<open>reference_URL\<close> is one conforming parser, used to evaluate examples: it rejects every
  input that \<open>https_pathname\<close> does not cover (a real parser accepts more).
\<close>

definition reference_URL :: "jsstring \<Rightarrow> jsstring option" where
  "reference_URL input = https_pathname input"

section \<open>Settings and the uploader (main.ts lines 4 to 73)\<close>

record TosPicbedPluginSettings =
  secretId :: jsstring
  secretKey :: jsstring
  bucket :: jsstring
  region :: jsstring
  prefix :: jsstring
  usePublicUrl :: bool

text \<open>\<^verbatim>\<open>/^\/+|\/+$/g\<close> and \<^verbatim>\<open>/^\/+/\<close>\<close>

definition trimSlashesRe :: regex where
  "trimSlashesRe = Alt (Seq Bol (Plus (Chr slash))) (Seq (Plus (Chr slash)) Eol)"

definition leadingSlashesRe :: regex where
  "leadingSlashesRe = Seq Bol (Plus (Chr slash))"

definition normPrefix :: "TosPicbedPluginSettings \<Rightarrow> jsstring" where
  "normPrefix st =
     (let p = replace_global False trimSlashesRe (prefix st) []
      in if p \<noteq> [] then p @ js ''/'' else [])"

text \<open>
  The key that \<^verbatim>\<open>uploadFile\<close> computes from the file name (lines 39 to 41); \<open>now\<close> is the
  value of \<^verbatim>\<open>Date.now()\<close>. An empty string is falsy, so a name that ends in a dot gets no
  extension.
\<close>

definition file_ext :: "jsstring \<Rightarrow> jsstring" where
  "file_ext fname = (if js_includes fname (js ''.'') then last (split dot fname) else [])"

definition object_name :: "jsstring \<Rightarrow> int \<Rightarrow> jsstring" where
  "object_name fname now =
     (let ext = file_ext fname
      in if ext \<noteq> [] then number_toString now @ js ''.'' @ ext else number_toString now)"

definition object_key :: "TosPicbedPluginSettings \<Rightarrow> jsstring \<Rightarrow> int \<Rightarrow> jsstring" where
  "object_key st fname now = normPrefix st @ object_name fname now"

text \<open>
  The storage client is outside the repository. What it answers is an input of the model:
  \<open>put_reply\<close> is the error raised by \<^verbatim>\<open>putObject\<close>, if any, and \<open>presigned\<close> the result
  of \<^verbatim>\<open>getPreSignedUrl\<close>. The calls made are recorded.
\<close>

datatype remote_call =
    PutObject jsstring jsstring
  | DeleteObject jsstring jsstring
  | GetPreSignedUrl jsstring jsstring

record client_reply =
  put_reply :: "js_error option"
  presigned :: "js_error + jsstring"

text \<open>\<^verbatim>\<open>key.split("/").map(encodeURIComponent).join("/")\<close>; the first error ends the map.\<close>

fun map_encode :: "jsstring list \<Rightarrow> js_error + jsstring list" where
  "map_encode [] = Inr []"
| "map_encode (seg # segs) =
     (case encodeURIComponent seg of
        Inl e \<Rightarrow> Inl e
      | Inr enc \<Rightarrow> map_sum id ((#) enc) (map_encode segs))"

definition safeKey :: "jsstring \<Rightarrow> js_error + jsstring" where
  "safeKey key = map_sum id (join slash) (map_encode (split slash key))"

definition publicUrl :: "TosPicbedPluginSettings \<Rightarrow> jsstring \<Rightarrow> jsstring" where
  "publicUrl st sk = js ''https://'' @ bucket st @ js ''.tos-'' @ region st @ js ''.volces.com/'' @ sk"

definition getUrl ::
  "TosPicbedPluginSettings \<Rightarrow> client_reply \<Rightarrow> jsstring \<Rightarrow> (js_error + jsstring) \<times> remote_call list"
where
  "getUrl st reply key =
     (if usePublicUrl st
      then (map_sum id (publicUrl st) (safeKey key), [])
      else (presigned reply, [GetPreSignedUrl (bucket st) key]))"

definition uploadFile ::
  "TosPicbedPluginSettings \<Rightarrow> jsstring \<Rightarrow> int \<Rightarrow> client_reply
     \<Rightarrow> (js_error + jsstring \<times> jsstring) \<times> remote_call list"
where
  "uploadFile st fname now reply =
     (let key = object_key st fname now; put = PutObject (bucket st) key
      in case put_reply reply of
           Some e \<Rightarrow> (Inl e, [put])
         | None \<Rightarrow>
             (case getUrl st reply key of
                (Inl e, calls) \<Rightarrow> (Inl e, put # calls)
              | (Inr url, calls) \<Rightarrow> (Inr (url, key), put # calls)))"

text \<open>
  \<^verbatim>\<open>deleteByKey\<close>: \<open>del\<close> is what the storage client answers to \<^verbatim>\<open>deleteObject\<close>.
\<close>

definition deleteByKey ::
  "TosPicbedPluginSettings \<Rightarrow> js_error option \<Rightarrow> jsstring \<Rightarrow> js_error option \<times> remote_call list"
where
  "deleteByKey st del key = (del, [DeleteObject (bucket st) key])"

text \<open>
  \<^verbatim>\<open>parseKeyFromUrlOrKey\<close> (lines 65 to 72). An error of the \<^verbatim>\<open>URL\<close> constructor or of
  \<^verbatim>\<open>decodeURIComponent\<close> is caught, and the input without its leading slashes is returned.
\<close>

definition parseKeyFromUrlOrKey :: "(jsstring \<Rightarrow> jsstring option) \<Rightarrow> jsstring \<Rightarrow> jsstring" where
  "parseKeyFromUrlOrKey U input =
     (case U input of
        None \<Rightarrow> replace_regex False leadingSlashesRe input []
      | Some pathname \<Rightarrow>
          (case decodeURIComponent (replace_regex False leadingSlashesRe pathname []) of
             Inl e \<Rightarrow> replace_regex False leadingSlashesRe input []
           | Inr key \<Rightarrow> key))"

section \<open>The editor of the host application\<close>

text \<open>
  The editor is outside the repository. The model keeps what main.ts uses of it: the
  text of the document, with lines separated by a line feed, and the cursor, kept as an
  offset into the text. Positions are pairs of a line number and a column, both counted
  from 0. Where the host moves the cursor by itself, when a range or the whole text is
  replaced, is not fixed here: it is given by the two functions of \<open>host\<close>, and every
  result below holds for all of them.
\<close>

record EditorPosition =
  line :: nat
  ch :: nat

record editor =
  doc :: jsstring
  cursor :: nat

record host =
  range_cursor :: "jsstring \<Rightarrow> nat \<Rightarrow> nat \<Rightarrow> jsstring \<Rightarrow> nat \<Rightarrow> nat"
  value_cursor :: "jsstring \<Rightarrow> jsstring \<Rightarrow> nat \<Rightarrow> nat"

definition first_line :: "jsstring \<Rightarrow> jsstring" where
  "first_line d = takeWhile (\<lambda>c. c \<noteq> newline) d"

text \<open>An offset beyond the end of the text is taken as the end of the text.\<close>

function offset_to_pos :: "jsstring \<Rightarrow> nat \<Rightarrow> EditorPosition" where
  "offset_to_pos d off =
     (let l = first_line d
      in if off \<le> length l \<or> length d \<le> length l then \<lparr>line = 0, ch = min off (length l)\<rparr>
         else (let p = offset_to_pos (drop (Suc (length l)) d) (off - Suc (length l))
               in p\<lparr>line := Suc (line p)\<rparr>))"
  by pat_completeness auto
termination
  by (relation "measure (\<lambda>(d, off). length d)") auto

declare offset_to_pos.simps [simp del]

text \<open>A column beyond the end of its line is taken as the end of the line, a line beyond
  the last one as the end of the text.\<close>

fun pos_to_offset :: "jsstring \<Rightarrow> nat \<Rightarrow> nat \<Rightarrow> nat" where
  "pos_to_offset d 0 c = min c (length (first_line d))"
| "pos_to_offset d (Suc n) c =
     (let l = first_line d
      in if length l < length d
         then Suc (length l) + pos_to_offset (drop (Suc (length l)) d) n c
         else length d)"

definition getValue :: "editor \<Rightarrow> jsstring" where
  "getValue e = doc e"

definition offsetToPos :: "editor \<Rightarrow> nat \<Rightarrow> EditorPosition" where
  "offsetToPos e off = offset_to_pos (doc e) off"

definition posToOffset :: "editor \<Rightarrow> EditorPosition \<Rightarrow> nat" where
  "posToOffset e p = pos_to_offset (doc e) (line p) (ch p)"

definition getCursor :: "editor \<Rightarrow> EditorPosition" where
  "getCursor e = offsetToPos e (cursor e)"

definition setCursor :: "EditorPosition \<Rightarrow> editor \<Rightarrow> editor" where
  "setCursor p e = e\<lparr>cursor := posToOffset e p\<rparr>"

text \<open>
  \<^verbatim>\<open>replaceRange(text, from, to)\<close>; main.ts calls it with \<open>from\<close> not after \<open>to\<close> only.
  \<^verbatim>\<open>replaceRange(text, pos)\<close> is the case \<open>to = from\<close>.
\<close>

definition replaceRange :: "host \<Rightarrow> jsstring \<Rightarrow> EditorPosition \<Rightarrow> EditorPosition \<Rightarrow> editor \<Rightarrow> editor" where
  "replaceRange h txt from to e =
     (let a = posToOffset e from; b = posToOffset e to
      in \<lparr>doc = take a (doc e) @ txt @ drop b (doc e),
          cursor = range_cursor h (doc e) a b txt (cursor e)\<rparr>)"

definition setValue :: "host \<Rightarrow> jsstring \<Rightarrow> editor \<Rightarrow> editor" where
  "setValue h v e = \<lparr>doc = v, cursor = value_cursor h (doc e) v (cursor e)\<rparr>"

definition getLine :: "nat \<Rightarrow> editor \<Rightarrow> jsstring" where
  "getLine n e = (let ls = split newline (doc e) in if n < length ls then ls ! n else [])"

definition setLine :: "host \<Rightarrow> nat \<Rightarrow> jsstring \<Rightarrow> editor \<Rightarrow> editor" where
  "setLine h n txt e =
     replaceRange h txt \<lparr>line = n, ch = 0\<rparr> \<lparr>line = n, ch = length (getLine n e)\<rparr> e"

section \<open>The plugin (main.ts lines 114 to 234)\<close>

text \<open>
  The notices shown to the user, in the order of their appearance in main.ts: lines 177,
  185, 205, 207, 226, 221 and 230. The error of a failure notice is the one whose message
  the notice shows.
\<close>

datatype notice =
    UploadSucceeded
  | UploadFailed js_error
  | DeleteSucceeded
  | DeleteFailed js_error
  | DeleteKeyFailed js_error
  | NoImagesFound
  | DeletedCount nat

record world =
  ed :: editor
  notices :: "notice list"
  remote :: "remote_call list"
  defaultPrevented :: bool

definition notify :: "notice \<Rightarrow> world \<Rightarrow> world" where
  "notify n w = w\<lparr>notices := notices w @ [n]\<rparr>"

definition called :: "remote_call list \<Rightarrow> world \<Rightarrow> world" where
  "called cs w = w\<lparr>remote := remote w @ cs\<rparr>"

text \<open>\<^verbatim>\<open>/!\[\[Pasted image.*?\.(?:png|jpe?g|gif|webp|svg)\]\]/gi\<close> (line 166)\<close>

definition imgRe :: regex where
  "imgRe =
     seqs [lit ''![[Pasted image'', LazyStar Dot, Chr dot,
           alts (lit ''png'') [seqs [lit ''jp'', Opt (Chr 0x65), Chr 0x67], lit ''gif'',
                                lit ''webp'', lit ''svg''],
           lit '']]'']"

text \<open>\<^verbatim>\<open>/!\[.*?\]\((.*?)\)/\<close> (lines 196, 220 and 229)\<close>

definition imageRefRe :: regex where
  "imageRefRe = seqs [lit ''!['', LazyStar Dot, lit '']('', Group 1 (LazyStar Dot), lit '')'']"

subsection \<open>Paste: success (lines 145 to 162)\<close>

definition finalMd :: "jsstring \<Rightarrow> jsstring" where
  "finalMd url = js ''![]('' @ url @ js '')''"

definition replace_token :: "host \<Rightarrow> jsstring \<Rightarrow> jsstring \<Rightarrow> editor \<Rightarrow> editor" where
  "replace_token h token url e =
     (case indexOf (getValue e) token of
        None \<Rightarrow> e
      | Some idx \<Rightarrow>
          let from = offsetToPos e idx;
              to = offsetToPos e (idx + length token);
              cur = getCursor e;
              wasAfterToken = (line cur = line to \<and> ch cur = ch to);
              e1 = replaceRange h (finalMd url) from to e
          in if wasAfterToken then setCursor (offsetToPos e1 (idx + length (finalMd url))) e1
             else e1)"

section \<open>Offsets and positions; matches that consume input\<close>

lemma first_line_length: "length (first_line d) \<le> length d"
  by (simp add: first_line_def length_takeWhile_le)

lemma pos_to_offset_offset_to_pos:
  "off \<le> length d \<Longrightarrow>
   pos_to_offset d (line (offset_to_pos d off)) (ch (offset_to_pos d off)) = off"
proof (induction d off rule: offset_to_pos.induct)
  case (1 d off)
  let ?l = "first_line d"
  show ?case
  proof (cases "off \<le> length ?l \<or> length d \<le> length ?l")
    case True
    with "1.prems" have "off \<le> length ?l" by auto
    then show ?thesis
      by (subst (1 2) offset_to_pos.simps) (simp add: Let_def)
  next
    case False
    then have lt: "length ?l < length d" and gt: "length ?l < off" by auto
    let ?d' = "drop (Suc (length ?l)) d" and ?o' = "off - Suc (length ?l)"
    have "?o' \<le> length ?d'" using "1.prems" gt by simp
    with "1.IH" [OF refl False] have ih:
      "pos_to_offset ?d' (line (offset_to_pos ?d' ?o')) (ch (offset_to_pos ?d' ?o')) = ?o'"
      by simp
    have eq: "offset_to_pos d off = (offset_to_pos ?d' ?o')\<lparr>line := Suc (line (offset_to_pos ?d' ?o'))\<rparr>"
      using False by (subst offset_to_pos.simps) (simp add: Let_def)
    show ?thesis
      using ih lt gt by (simp add: eq Let_def)
  qed
qed

lemma posToOffset_offsetToPos:
  "off \<le> length (doc e) \<Longrightarrow> posToOffset e (offsetToPos e off) = off"
  by (simp add: posToOffset_def offsetToPos_def pos_to_offset_offset_to_pos)

fun consuming :: "regex \<Rightarrow> bool" where
  "consuming (Chr p) = True"
| "consuming Dot = True"
| "consuming (Seq a b) = (consuming a \<or> consuming b)"
| "consuming (Alt a b) = (consuming a \<and> consuming b)"
| "consuming (Group k a) = consuming a"
| "consuming _ = False"

lemma consuming_shorter:
  "consuming r \<Longrightarrow> st' \<in> set (rmatch ic r s st) \<Longrightarrow> length (fst st') < length (fst st)"
proof (induction r arbitrary: st st')
  case (Chr p)
  then show ?case by (cases "fst st") (auto split: if_splits)
next
  case Dot
  then show ?case by (cases "fst st") (auto split: if_splits)
next
  case (Seq a b)
  from Seq.prems(2) obtain m where m: "m \<in> set (rmatch ic a s st)" "st' \<in> set (rmatch ic b s m)"
    by auto
  from rmatch_length_le [OF m(1)] rmatch_length_le [OF m(2)]
  have le: "length (fst m) \<le> length (fst st)" "length (fst st') \<le> length (fst m)" .
  from Seq.prems(1) have "consuming a \<or> consuming b" by simp
  then show ?case
  proof
    assume "consuming a"
    from Seq.IH(1) [OF this m(1)] le show ?thesis by simp
  next
    assume "consuming b"
    from Seq.IH(2) [OF this m(2)] le show ?thesis by simp
  qed
next
  case (Alt a b)
  from Alt.prems(2) have "st' \<in> set (rmatch ic a s st) \<or> st' \<in> set (rmatch ic b s st)" by simp
  moreover from Alt.prems(1) have "consuming a" "consuming b" by simp_all
  ultimately show ?case using Alt.IH(1) [of st' st] Alt.IH(2) [of st' st] by blast
next
  case (Group k a)
  from Group.prems(2) obtain m where "m \<in> set (rmatch ic a s st)" "fst st' = fst m" by auto
  then show ?case using Group.IH [of m st] Group.prems(1) by simp
qed simp_all

lemma exec_consuming:
  "consuming r \<Longrightarrow> exec ic r s k = Some m \<Longrightarrow> index m < endIndex m"
proof (induction ic r s k rule: exec.induct)
  case (1 ic r s k)
  show ?case
  proof (cases "rmatch ic r s (drop k s, [])")
    case Nil
    with "1.prems" have "\<not> length s < k" and "exec ic r s (Suc k) = Some m"
      by (auto simp: exec.simps [of ic r s k] split: if_splits)
    with "1.IH" Nil "1.prems"(1) show ?thesis by fastforce
  next
    case (Cons st sts)
    with "1.prems" have le: "\<not> length s < k"
      and m: "m = \<lparr>index = k, endIndex = length s - length (fst st), groups = snd st\<rparr>"
      by (auto simp: exec.simps [of ic r s k] split: if_splits)
    have "length (fst st) < length (drop k s)"
      using consuming_shorter [OF "1.prems"(1), of st ic s "(drop k s, [])"] Cons by simp
    with le m show ?thesis by auto
  qed
qed

lemma consuming_imgRe: "consuming imgRe"
  by (simp add: imgRe_def seqs_def lit_def js_def)

lemma consuming_imageRefRe: "consuming imageRefRe"
  by (simp add: imageRefRe_def seqs_def lit_def js_def)

subsection \<open>Paste: residual clean-up (lines 165 to 175)\<close>

text \<open>
  The regular expression is created anew for each image and \<^verbatim>\<open>lastIndex\<close> is set back to
  0 after each deletion, so every \<^verbatim>\<open>exec\<close> starts at index 0 of the current text.
\<close>

function cleanup :: "host \<Rightarrow> editor \<Rightarrow> editor" where
  "cleanup h e =
     (case exec True imgRe (getValue e) 0 of
        None \<Rightarrow> e
      | Some m \<Rightarrow>
          cleanup h (replaceRange h [] (offsetToPos e (index m)) (offsetToPos e (endIndex m)) e))"
  by pat_completeness auto
termination
proof (relation "measure (\<lambda>(h, e). length (doc e))", goal_cases)
  case 1
  show ?case by simp
next
  case (2 h e m)
  then have ex: "exec True imgRe (doc e) 0 = Some m" by (simp add: getValue_def)
  from exec_bounds [OF ex] exec_consuming [OF consuming_imgRe ex]
  have b: "index m < endIndex m" "endIndex m \<le> length (doc e)" by auto
  then have "posToOffset e (offsetToPos e (index m)) = index m"
    "posToOffset e (offsetToPos e (endIndex m)) = endIndex m"
    by (simp_all add: posToOffset_offsetToPos)
  with b show ?case by (simp add: replaceRange_def Let_def)
qed

declare cleanup.simps [simp del]

subsection \<open>Paste: the handler (lines 124 to 188)\<close>

definition on_upload_success :: "host \<Rightarrow> jsstring \<Rightarrow> jsstring \<Rightarrow> world \<Rightarrow> world" where
  "on_upload_success h token url w =
     notify UploadSucceeded (w\<lparr>ed := cleanup h (replace_token h token url (ed w))\<rparr>)"

text \<open>The catch branch (lines 179 to 185).\<close>

definition on_upload_failure :: "host \<Rightarrow> jsstring \<Rightarrow> js_error \<Rightarrow> world \<Rightarrow> world" where
  "on_upload_failure h token e w =
     (let d = getValue (ed w);
          e1 = (if js_includes d token
                then (let after = replace_string d token [];
                          e2 = setValue h after (ed w)
                      in setCursor (offsetToPos e2 (length after)) e2)
                else ed w)
      in notify (UploadFailed e) (w\<lparr>ed := e1\<rparr>))"

text \<open>
  One item of the clipboard, together with what the environment does while the item is
  handled: the two readings of the clock, the string \<^verbatim>\<open>Math.random().toString(36)\<close>, the
  answers of the storage client, and the edit that the user makes to the buffer while the
  upload is in flight.
\<close>

record clip_item =
  kind :: jsstring
  mime :: jsstring
  asFile :: "jsstring option"
  token_now :: int
  rnd36 :: jsstring
  upload_now :: int
  reply :: client_reply
  user_edit :: "editor \<Rightarrow> editor"

fun paste_images :: "host \<Rightarrow> TosPicbedPluginSettings \<Rightarrow> clip_item list \<Rightarrow> world \<Rightarrow> world" where
  "paste_images h st [] w = w"
| "paste_images h st (it # its) w =
     (case asFile it of
        None \<Rightarrow> paste_images h st its w
      | Some fname \<Rightarrow>
          let token = make_token (token_now it) (rnd36 it);
              pos = getCursor (ed w);
              w1 = w\<lparr>ed := replaceRange h token pos pos (ed w)\<rparr>;
              (res, calls) = uploadFile st fname (upload_now it) (reply it);
              w2 = called calls (w1\<lparr>ed := user_edit it (ed w1)\<rparr>)
          in paste_images h st its
               (case res of
                  Inr (url, key) \<Rightarrow> on_upload_success h token url w2
                | Inl e \<Rightarrow> on_upload_failure h token e w2))"

definition editor_paste ::
  "host \<Rightarrow> TosPicbedPluginSettings option \<Rightarrow> clip_item list \<Rightarrow> bool \<Rightarrow> world \<Rightarrow> world"
where
  "editor_paste h uploader items activeFile w =
     (case uploader of
        None \<Rightarrow> w
      | Some st \<Rightarrow>
          let imgs = filter (\<lambda>i. kind i = js ''file'' \<and> take 6 (mime i) = js ''image/'') items
          in if imgs = [] then w
             else if \<not> activeFile then w\<lparr>defaultPrevented := True\<rparr>
             else paste_images h st imgs (w\<lparr>defaultPrevented := True\<rparr>))"

subsection \<open>Delete one image (lines 193 to 211)\<close>

text \<open>
  The cursor, its line and the match are taken when the menu opens; the menu item exists
  only if the line has a match and an uploader is configured. \<open>del\<close> is the answer of the
  storage client. Everything in the click handler is inside one \<^verbatim>\<open>try\<close>, so an error of
  \<^verbatim>\<open>deleteByKey\<close> skips \<^verbatim>\<open>setLine\<close>.
\<close>

definition delete_one ::
  "host \<Rightarrow> (jsstring \<Rightarrow> jsstring option) \<Rightarrow> TosPicbedPluginSettings option \<Rightarrow> js_error option
     \<Rightarrow> world \<Rightarrow> world"
where
  "delete_one h U uploader del w =
     (let cur = getCursor (ed w); ln = getLine (line cur) (ed w)
      in case (exec False imageRefRe ln 0, uploader) of
           (Some m, Some st) \<Rightarrow>
             (let key = parseKeyFromUrlOrKey U (group ln m 1);
                  (r, calls) = deleteByKey st del key;
                  w1 = called calls w
              in case r of
                   Some e \<Rightarrow> notify (DeleteFailed e) w1
                 | None \<Rightarrow>
                     notify DeleteSucceeded
                       (w1\<lparr>ed := setLine h (line cur) (replace_string ln (matched ln m) []) (ed w1)\<rparr>))
         | _ \<Rightarrow> w)"

subsection \<open>Delete all images (lines 216 to 233)\<close>

text \<open>
  \<open>del i\<close> is the answer of the storage client to the delete of the \<open>i\<close>-th key. The
  deletes run concurrently; their failure notices are listed in the order of the keys.
\<close>

fun delete_keys ::
  "TosPicbedPluginSettings \<Rightarrow> (nat \<Rightarrow> js_error option) \<Rightarrow> nat \<Rightarrow> jsstring list
     \<Rightarrow> notice list \<times> remote_call list"
where
  "delete_keys st del i [] = ([], [])"
| "delete_keys st del i (k # ks) =
     (let (r, calls) = deleteByKey st (del i) k;
          (ns, cs) = delete_keys st del (Suc i) ks
      in ((case r of None \<Rightarrow> [] | Some e \<Rightarrow> [DeleteKeyFailed e]) @ ns, calls @ cs))"

definition delete_all ::
  "host \<Rightarrow> (jsstring \<Rightarrow> jsstring option) \<Rightarrow> TosPicbedPluginSettings option
     \<Rightarrow> (nat \<Rightarrow> js_error option) \<Rightarrow> world \<Rightarrow> world"
where
  "delete_all h U uploader del w =
     (let all = getValue (ed w); matches = matchAll False imageRefRe all
      in if matches = [] then notify NoImagesFound w
         else
           let keys = map (\<lambda>m. parseKeyFromUrlOrKey U (group all m 1)) matches;
               w1 = (case uploader of
                       None \<Rightarrow> w
                     | Some st \<Rightarrow>
                         (let (ns, cs) = delete_keys st del 0 keys
                          in called cs (w\<lparr>notices := notices w @ ns\<rparr>)))
           in notify (DeletedCount (length keys))
                (w1\<lparr>ed := setValue h (replace_global False imageRefRe all []) (ed w1)\<rparr>))"

section \<open>What a global replace removes\<close>

text \<open>
  The matches found by \<^verbatim>\<open>matchAll\<close> follow one another without overlap, and replacing
  all of them by the empty string keeps exactly the code units that lie in no match.
\<close>

definition outside :: "jsmatch list \<Rightarrow> nat \<Rightarrow> bool" where
  "outside ms i = (\<forall>m \<in> set ms. \<not> (index m \<le> i \<and> i < endIndex m))"

definition strip_spans :: "jsstring \<Rightarrow> jsmatch list \<Rightarrow> jsstring" where
  "strip_spans s ms = map (nth s) (filter (outside ms) [0..<length s])"

fun chain :: "nat \<Rightarrow> jsmatch list \<Rightarrow> nat \<Rightarrow> bool" where
  "chain k [] n = (k \<le> n)"
| "chain k (m # ms) n = (k \<le> index m \<and> index m \<le> endIndex m \<and> chain (endIndex m) ms n)"

lemma chain_mono: "chain k ms n \<Longrightarrow> j \<le> k \<Longrightarrow> chain j ms n"
  by (cases ms) auto


lemma matchAll_from_chain: "k \<le> length s \<Longrightarrow> chain k (matchAll_from ic r s k) (length s)"
proof (induction ic r s k rule: matchAll_from.induct)
  case (1 ic r s k)
  show ?case
  proof (cases "exec ic r s k")
    case None
    then show ?thesis using "1.prems" by (simp add: matchAll_from.simps [of ic r s k])
  next
    case (Some m)
    let ?k' = "if endIndex m = index m then Suc (endIndex m) else endIndex m"
    from exec_bounds [OF Some] have b: "k \<le> index m" "index m \<le> endIndex m" "endIndex m \<le> length s"
      by auto
    have "chain (endIndex m) (matchAll_from ic r s ?k') (length s)"
    proof (cases "?k' \<le> length s")
      case True
      from "1.IH" [OF Some True] show ?thesis by (rule chain_mono) simp
    next
      case False
      then have "exec ic r s ?k' = None" by (simp add: exec.simps [of ic r s ?k'])
      then have "matchAll_from ic r s ?k' = []" by (simp add: matchAll_from.simps [of ic r s ?k'])
      then show ?thesis using b by simp
    qed
    then show ?thesis using Some b by (simp add: matchAll_from.simps [of ic r s k])
  qed
qed


lemma chain_le: "chain k ms n \<Longrightarrow> k \<le> n"
  by (induction ms arbitrary: k) (auto dest: le_trans)

lemma upt_split: "a \<le> b \<Longrightarrow> b \<le> c \<Longrightarrow> [a..<c] = [a..<b] @ [b..<c]"
  using upt_add_eq_append [of a b "c - b"] by simp

lemma chain_bounds:
  "chain k ms n \<Longrightarrow> m \<in> set ms \<Longrightarrow> k \<le> index m \<and> index m \<le> endIndex m \<and> endIndex m \<le> n"
proof (induction ms arbitrary: k)
  case Nil
  then show ?case by simp
next
  case (Cons a ms)
  have an: "endIndex a \<le> n" using Cons.prems(1) chain_le [of "endIndex a" ms n] by simp
  show ?case
  proof (cases "m = a")
    case True
    then show ?thesis using Cons.prems(1) an by simp
  next
    case False
    then have "m \<in> set ms" using Cons.prems(2) by simp
    from Cons.IH [OF _ this, of "endIndex a"] Cons.prems(1) show ?thesis by simp
  qed
qed

lemma map_nth_upt: "b \<le> length s \<Longrightarrow> map ((!) s) [a..<b] = drop a (take b s)"
  by (auto simp: list_eq_iff_nth_eq)

lemma replace_results_strip:
  "chain pos ms (length s) \<Longrightarrow>
   replace_results s [] ms pos acc = acc @ map ((!) s) (filter (outside ms) [pos..<length s])"
proof (induction ms arbitrary: pos acc)
  case Nil
  then show ?case by (simp add: outside_def map_nth_upt)
next
  case (Cons m ms)
  let ?n = "length s"
  from Cons.prems have b: "pos \<le> index m" "index m \<le> endIndex m" and ch: "chain (endIndex m) ms ?n"
    by simp_all
  from chain_bounds [OF Cons.prems, of m] have en: "endIndex m \<le> ?n" by simp
  have later: "endIndex m \<le> index m'" if "m' \<in> set ms" for m'
    using chain_bounds [OF ch that] by simp
  have split: "[pos..<?n] = [pos..<index m] @ [index m..<endIndex m] @ [endIndex m..<?n]"
    using b en by (simp add: upt_split [of pos "index m" ?n] upt_split [of "index m" "endIndex m" ?n])
  have f1: "filter (outside (m # ms)) [pos..<index m] = [pos..<index m]"
  proof (rule filter_True, clarify)
    fix i assume "i \<in> set [pos..<index m]"
    then have "i < index m" by simp
    then show "outside (m # ms) i"
      using b later by (fastforce simp: outside_def)
  qed
  have f2: "filter (outside (m # ms)) [index m..<endIndex m] = []"
    by (rule filter_False) (simp add: outside_def)
  have f3: "filter (outside (m # ms)) [endIndex m..<?n] = filter (outside ms) [endIndex m..<?n]"
    by (rule filter_cong) (auto simp: outside_def)
  have "replace_results s [] (m # ms) pos acc
        = replace_results s [] ms (endIndex m) (acc @ drop pos (take (index m) s))"
    using b by simp
  also have "\<dots> = (acc @ drop pos (take (index m) s))
                   @ map ((!) s) (filter (outside ms) [endIndex m..<?n])"
    by (rule Cons.IH [OF ch])
  also have "drop pos (take (index m) s) = map ((!) s) [pos..<index m]"
    using b en by (simp add: map_nth_upt)
  finally show ?case
    by (simp add: split f1 f2 f3)
qed

lemma replace_global_strip:
  "replace_global ic r s [] = strip_spans s (matchAll ic r s)"
  unfolding replace_global_def strip_spans_def matchAll_def
  using replace_results_strip [OF matchAll_from_chain [of 0 s ic r], of "[]"] by simp

lemma delete_keys_calls:
  "snd (delete_keys st del i ks) = map (DeleteObject (bucket st)) ks"
  by (induction ks arbitrary: i) (simp_all add: deleteByKey_def split_beta)

definition failure_notices :: "(nat \<Rightarrow> js_error option) \<Rightarrow> nat list \<Rightarrow> notice list" where
  "failure_notices del is =
     concat (map (\<lambda>i. case del i of None \<Rightarrow> [] | Some e \<Rightarrow> [DeleteKeyFailed e]) is)"

lemma delete_keys_notices:
  "fst (delete_keys st del i ks) = failure_notices del [i..<i + length ks]"
proof (induction ks arbitrary: i)
  case Nil
  then show ?case by (simp add: failure_notices_def)
next
  case (Cons k ks)
  have "[i..<i + length (k # ks)] = i # [Suc i..<Suc i + length ks]"
    by (simp add: upt_rec)
  then show ?case
    using Cons [of "Suc i"]
    by (simp add: failure_notices_def deleteByKey_def split_beta split: option.splits)
qed


lemma failure_notices_length:
  "length (failure_notices del is) = length (filter (\<lambda>i. del i \<noteq> None) is)"
  by (induction "is") (auto simp: failure_notices_def split: option.splits)

section \<open>Facts about \<^verbatim>\<open>indexOf\<close> and positions\<close>

lemma indexOf_occurs:
  "indexOf s pat = Some i \<Longrightarrow> i + length pat \<le> length s \<and> take (length pat) (drop i s) = pat"
proof (induction s arbitrary: i)
  case Nil
  then show ?case by (simp split: if_splits)
next
  case (Cons c cs)
  show ?case
  proof (cases "take (length pat) (c # cs) = pat")
    case True
    with Cons.prems have "i = 0" by simp
    moreover have "length pat \<le> length (c # cs)"
    proof -
      have "length (take (length pat) (c # cs)) = length pat" using True by simp
      then show ?thesis by (simp only: length_take)
    qed
    ultimately show ?thesis using True by simp
  next
    case False
    with Cons.prems obtain j where j: "indexOf cs pat = Some j" "i = Suc j" by auto
    from Cons.IH [OF j(1)] j(2) show ?thesis by simp
  qed
qed

lemma indexOf_first:
  "indexOf s pat = Some i \<Longrightarrow> j < i \<Longrightarrow> take (length pat) (drop j s) \<noteq> pat"
proof (induction s arbitrary: i j)
  case Nil
  then show ?case by (simp split: if_splits)
next
  case (Cons c cs)
  from Cons.prems have ne: "take (length pat) (c # cs) \<noteq> pat"
    by (auto split: if_splits)
  with Cons.prems obtain k where k: "indexOf cs pat = Some k" "i = Suc k" by auto
  show ?case
  proof (cases j)
    case 0
    then show ?thesis using ne by simp
  next
    case (Suc j')
    with Cons.prems k have "j' < k" by simp
    from Cons.IH [OF k(1) this] Suc show ?thesis by simp
  qed
qed

lemma position_eq: "(p = q) = (line p = line q \<and> ch p = ch q)" for p q :: EditorPosition
  by auto

lemma offsetToPos_inj:
  "a \<le> length (doc e) \<Longrightarrow> b \<le> length (doc e) \<Longrightarrow> offsetToPos e a = offsetToPos e b \<Longrightarrow> a = b"
  by (metis posToOffset_offsetToPos)

section \<open>Replacing the placeholder token\<close>

lemma replace_token_general:
  assumes "indexOf (getValue e) token = Some idx"
  shows "let to = offsetToPos e (idx + length token);
             md = finalMd url;
             e' = replace_token h token url e
         in doc e' = take idx (doc e) @ md @ drop (idx + length token) (doc e)
            \<and> (getCursor e = to \<longrightarrow>
                 cursor e' = idx + length md \<and> getCursor e' = offsetToPos e' (idx + length md))
            \<and> (getCursor e \<noteq> to \<longrightarrow>
                 e' = replaceRange h md (offsetToPos e idx) to e
                 \<and> cursor e' = range_cursor h (doc e) idx (idx + length token) md (cursor e))"
proof -
  let ?to = "offsetToPos e (idx + length token)" and ?md = "finalMd url"
  let ?e1 = "replaceRange h ?md (offsetToPos e idx) ?to e"
  from indexOf_occurs [OF assms [unfolded getValue_def]]
  have le: "idx + length token \<le> length (doc e)" by simp
  then have p: "posToOffset e (offsetToPos e idx) = idx"
    "posToOffset e ?to = idx + length token"
    by (simp_all add: posToOffset_offsetToPos)
  have e1: "?e1 = \<lparr>doc = take idx (doc e) @ ?md @ drop (idx + length token) (doc e),
                    cursor = range_cursor h (doc e) idx (idx + length token) ?md (cursor e)\<rparr>"
    by (simp add: replaceRange_def Let_def p)
  have len: "idx + length ?md \<le> length (doc ?e1)"
    using le by (simp add: e1)
  have rt: "replace_token h token url e =
            (if getCursor e = ?to then setCursor (offsetToPos ?e1 (idx + length ?md)) ?e1 else ?e1)"
    using assms by (simp add: replace_token_def Let_def position_eq)
  have sc: "cursor (setCursor (offsetToPos ?e1 (idx + length ?md)) ?e1) = idx + length ?md"
    "doc (setCursor (offsetToPos ?e1 (idx + length ?md)) ?e1) = doc ?e1"
    using posToOffset_offsetToPos [OF len] by (simp_all add: setCursor_def)
  have gc: "getCursor (setCursor (offsetToPos ?e1 (idx + length ?md)) ?e1)
            = offsetToPos (setCursor (offsetToPos ?e1 (idx + length ?md)) ?e1) (idx + length ?md)"
    by (simp add: getCursor_def sc(1))
  show ?thesis
  proof (cases "getCursor e = ?to")
    case True
    then show ?thesis
      using sc gc by (simp only: Let_def rt if_True) (simp add: e1)
  next
    case False
    then show ?thesis
      by (simp only: Let_def rt if_False) (simp add: e1)
  qed
qed


lemma make_token_head: "make_token t r = 0x7B # tl (make_token t r)"
  by (simp add: make_token_def js_def)

lemma indexOf_abc_token: "indexOf (js ''abc'' @ make_token t r) (make_token t r) = Some 3"
proof -
  obtain tk where tk: "make_token t r = 0x7B # tk"
    using make_token_head by blast
  show ?thesis
    by (simp add: tk js_def)
qed

section \<open>Remote calls and notices of the paste handler\<close>

fun is_delete :: "remote_call \<Rightarrow> bool" where
  "is_delete (DeleteObject b k) = True"
| "is_delete _ = False"

fun is_put :: "remote_call \<Rightarrow> bool" where
  "is_put (PutObject b k) = True"
| "is_put _ = False"

definition with_file :: "clip_item list \<Rightarrow> clip_item list" where
  "with_file its = filter (\<lambda>i. asFile i \<noteq> None) its"

lemma uploadFile_calls:
  "filter is_delete (snd (uploadFile st f now rp)) = []"
  "length (filter is_put (snd (uploadFile st f now rp))) = 1"
  by (auto simp: uploadFile_def getUrl_def Let_def split: option.splits sum.splits prod.splits if_splits)

lemma on_upload_success_effects:
  "remote (on_upload_success h token url w) = remote w"
  "notices (on_upload_success h token url w) = notices w @ [UploadSucceeded]"
  by (simp_all add: on_upload_success_def notify_def)

lemma on_upload_failure_effects:
  "remote (on_upload_failure h token e w) = remote w"
  "notices (on_upload_failure h token e w) = notices w @ [UploadFailed e]"
  by (simp_all add: on_upload_failure_def notify_def Let_def)

lemma paste_images_effects:
  "filter is_delete (remote (paste_images h st its w)) = filter is_delete (remote w)
   \<and> length (filter is_put (remote (paste_images h st its w)))
       = length (filter is_put (remote w)) + length (with_file its)
   \<and> length (notices (paste_images h st its w)) = length (notices w) + length (with_file its)"
proof (induction its arbitrary: w)
  case Nil
  show ?case by (simp add: with_file_def)
next
  case (Cons it its)
  show ?case
  proof (cases "asFile it")
    case None
    then show ?thesis using Cons [of w] by (simp add: with_file_def)
  next
    case (Some f)
    let ?token = "make_token (token_now it) (rnd36 it)"
    let ?w1 = "w\<lparr>ed := replaceRange h ?token (getCursor (ed w)) (getCursor (ed w)) (ed w)\<rparr>"
    let ?up = "uploadFile st f (upload_now it) (reply it)"
    let ?w2 = "called (snd ?up) (?w1\<lparr>ed := user_edit it (ed ?w1)\<rparr>)"
    let ?w3 = "case fst ?up of Inr (url, key) \<Rightarrow> on_upload_success h ?token url ?w2
               | Inl e \<Rightarrow> on_upload_failure h ?token e ?w2"
    have step: "paste_images h st (it # its) w = paste_images h st its ?w3"
      using Some by (simp add: Let_def split_beta)
    have r: "remote ?w3 = remote w @ snd ?up"
      by (simp add: on_upload_success_effects on_upload_failure_effects called_def
          split: sum.splits prod.splits)
    have n: "length (notices ?w3) = Suc (length (notices w))"
      by (simp add: on_upload_success_effects on_upload_failure_effects called_def
          split: sum.splits prod.splits)
    have wf: "length (with_file (it # its)) = Suc (length (with_file its))"
      using Some by (simp add: with_file_def)
    show ?thesis
      using Cons [of ?w3] uploadFile_calls [of st f "upload_now it" "reply it"]
      by (simp only: step r n wf) simp
  qed
qed

section \<open>The regular expressions that trim slashes\<close>

lemma star_chr_nil: "rmatch False (Star (Chr p)) s ([], cs) = [([], cs)]"
  by (subst rmatch.simps(9)) simp

lemma star_chr_cons:
  "rmatch False (Star (Chr p)) s (c # r, cs) =
     (if p = c then rmatch False (Star (Chr p)) s (r, cs) @ [(c # r, cs)] else [(c # r, cs)])"
  by (subst rmatch.simps(9)) (simp add: char_matches_def progress_def)

lemma star_chr_hd:
  "rmatch False (Star (Chr p)) s (r, cs) \<noteq> []
   \<and> hd (rmatch False (Star (Chr p)) s (r, cs)) = (dropWhile (\<lambda>c. c = p) r, cs)"
  by (induction r) (auto simp: star_chr_nil star_chr_cons)

lemma star_chr_eol:
  "concat (map (rmatch False Eol s) (rmatch False (Star (Chr p)) s (r, cs)))
   = (if \<forall>c \<in> set r. c = p then [([], cs)] else [])"
proof (induction r)
  case Nil
  show ?case by (simp add: star_chr_nil)
next
  case (Cons c r)
  show ?case
  proof (cases "p = c")
    case True
    then show ?thesis using Cons by (simp add: star_chr_cons)
  next
    case False
    then have "c \<noteq> p" by simp
    then show ?thesis using False by (simp add: star_chr_cons)
  qed
qed

lemma plus_chr:
  "rmatch False (Plus (Chr p)) s (rest, cs) =
     (case rest of [] \<Rightarrow> [] | c # r \<Rightarrow> if p = c then rmatch False (Star (Chr p)) s (r, cs) else [])"
  by (cases rest) (simp_all add: Plus_def char_matches_def)

lemma trim_at_start:
  assumes "s = slash # r"
  shows "\<exists>more. rmatch False trimSlashesRe s (s, []) = (dropWhile (\<lambda>c. c = slash) s, []) # more"
proof -
  have "rmatch False (Seq Bol (Plus (Chr slash))) s (s, []) = rmatch False (Star (Chr slash)) s (r, [])"
    using assms by (simp add: plus_chr)
  moreover from star_chr_hd [of slash s r "[]"]
  obtain more where "rmatch False (Star (Chr slash)) s (r, []) = (dropWhile (\<lambda>c. c = slash) r, []) # more"
    by (cases "rmatch False (Star (Chr slash)) s (r, [])") auto
  ultimately show ?thesis
    using assms by (simp add: trimSlashesRe_def)
qed

lemma trim_elsewhere:
  assumes "length rest \<noteq> length s \<or> rest = [] \<or> hd rest \<noteq> slash"
  shows "rmatch False trimSlashesRe s (rest, [])
         = (if rest \<noteq> [] \<and> (\<forall>c \<in> set rest. c = slash) then [([], [])] else [])"
proof (cases rest)
  case Nil
  then show ?thesis by (simp add: trimSlashesRe_def plus_chr)
next
  case (Cons c r)
  show ?thesis
  proof (cases "c = slash")
    case False
    then show ?thesis using Cons by (auto simp: trimSlashesRe_def plus_chr)
  next
    case True
    with assms Cons have ne: "length rest \<noteq> length s" by simp
    have a: "rmatch False (Seq Bol (Plus (Chr slash))) s (rest, []) = []"
      using ne by simp
    have b: "rmatch False (Seq (Plus (Chr slash)) Eol) s (rest, [])
             = (if \<forall>c \<in> set r. c = slash then [([], [])] else [])"
      using Cons True star_chr_eol [of s slash r "[]"] by (simp add: plus_chr)
    have "rmatch False trimSlashesRe s (rest, [])
          = rmatch False (Seq Bol (Plus (Chr slash))) s (rest, [])
            @ rmatch False (Seq (Plus (Chr slash)) Eol) s (rest, [])"
      by (simp only: trimSlashesRe_def rmatch.simps(7))
    also have "\<dots> = (if \<forall>c \<in> set r. c = slash then [([], [])] else [])"
      by (simp only: a b append_Nil)
    also have "\<dots> = (if rest \<noteq> [] \<and> (\<forall>c \<in> set rest. c = slash) then [([], [])] else [])"
      using Cons True by simp
    finally show ?thesis .
  qed
qed


lemma exec_trim_start:
  assumes "s = slash # r"
  shows "exec False trimSlashesRe s 0
         = Some \<lparr>index = 0, endIndex = length (takeWhile (\<lambda>c. c = slash) s), groups = []\<rparr>"
proof -
  from trim_at_start [OF assms] obtain more where
    m: "rmatch False trimSlashesRe s (s, []) = (dropWhile (\<lambda>c. c = slash) s, []) # more" ..
  have "length s - length (dropWhile (\<lambda>c. c = slash) s) = length (takeWhile (\<lambda>c. c = slash) s)"
    by (metis add_diff_cancel_right' length_append takeWhile_dropWhile_id)
  then show ?thesis
    using m by (subst exec.simps) simp
qed

lemma exec_trim_skip:
  assumes "s = pre @ rest" and "rest \<noteq> []"
    and "\<not> (\<forall>c \<in> set rest. c = slash)" and "pre = [] \<longrightarrow> hd rest \<noteq> slash"
  shows "exec False trimSlashesRe s (length pre) = exec False trimSlashesRe s (Suc (length pre))"
proof -
  have d: "drop (length pre) s = rest" using assms(1) by simp
  have "length rest \<noteq> length s \<or> rest = [] \<or> hd rest \<noteq> slash"
    using assms(1,4) by (cases pre) auto
  from trim_elsewhere [OF this] assms(3)
  have "rmatch False trimSlashesRe s (rest, []) = []" by simp
  then show ?thesis
    using assms(1) by (subst exec.simps) (simp add: d)
qed

lemma exec_trim_scan:
  assumes "core \<noteq> []" and "last core \<noteq> slash" and "pre = [] \<longrightarrow> hd core \<noteq> slash"
  shows "exec False trimSlashesRe (pre @ core @ post) (length pre)
         = exec False trimSlashesRe (pre @ core @ post) (length pre + length core)"
  using assms
proof (induction core arbitrary: pre)
  case Nil
  then show ?case by simp
next
  case (Cons c cs)
  have "last (c # cs) \<in> set (c # cs @ post)"
    using last_in_set [of "c # cs"] by auto
  then have notall: "\<not> (\<forall>x \<in> set (c # cs @ post). x = slash)"
    using Cons.prems(2) by blast
  have skip: "exec False trimSlashesRe (pre @ (c # cs) @ post) (length pre)
              = exec False trimSlashesRe (pre @ (c # cs) @ post) (Suc (length pre))"
    using exec_trim_skip [of "pre @ (c # cs) @ post" pre "c # cs @ post"] notall Cons.prems(3)
    by simp
  show ?case
  proof (cases "cs = []")
    case True
    then show ?thesis using skip by simp
  next
    case False
    have "exec False trimSlashesRe ((pre @ [c]) @ cs @ post) (length (pre @ [c]))
          = exec False trimSlashesRe ((pre @ [c]) @ cs @ post) (length (pre @ [c]) + length cs)"
      using Cons.IH [of "pre @ [c]"] False Cons.prems(2) by simp
    then show ?thesis using skip by simp
  qed
qed

lemma exec_trim_end: "exec False trimSlashesRe s (length s) = None"
proof -
  have "rmatch False trimSlashesRe s ([], []) = []"
    using trim_elsewhere [of "[]" s] by simp
  then have "exec False trimSlashesRe s (length s) = exec False trimSlashesRe s (Suc (length s))"
    by (subst exec.simps) simp
  also have "\<dots> = None"
    by (subst exec.simps) simp
  finally show ?thesis .
qed

lemma exec_trim_tail:
  assumes "sl \<noteq> []" and "\<forall>c \<in> set sl. c = slash" and "pre \<noteq> []"
  shows "exec False trimSlashesRe (pre @ sl) (length pre)
         = Some \<lparr>index = length pre, endIndex = length (pre @ sl), groups = []\<rparr>"
proof -
  have "length sl \<noteq> length (pre @ sl) \<or> sl = [] \<or> hd sl \<noteq> slash"
    using assms(3) by simp
  from trim_elsewhere [OF this] assms(1,2)
  have "rmatch False trimSlashesRe (pre @ sl) (sl, []) = [([], [])]" by simp
  then show ?thesis
    by (subst exec.simps) simp
qed


text \<open>
  The configured prefix with all leading and all trailing slashes stripped, as the
  specification words it.
\<close>

definition strip_slashes :: "jsstring \<Rightarrow> jsstring" where
  "strip_slashes p = rev (dropWhile (\<lambda>c. c = slash) (rev (dropWhile (\<lambda>c. c = slash) p)))"

lemma slashes_core_slashes:
  "(\<forall>c \<in> set s. c = slash)
   \<or> (\<exists>sl1 core sl2. s = sl1 @ core @ sl2 \<and> (\<forall>c \<in> set sl1. c = slash) \<and> (\<forall>c \<in> set sl2. c = slash)
        \<and> core \<noteq> [] \<and> hd core \<noteq> slash \<and> last core \<noteq> slash)"
proof (cases "\<forall>c \<in> set s. c = slash")
  case True
  then show ?thesis ..
next
  case False
  let ?P = "\<lambda>c. c = slash"
  let ?t = "dropWhile ?P s"
  let ?core = "rev (dropWhile ?P (rev ?t))" and ?sl2 = "rev (takeWhile ?P (rev ?t))"
  from False have t: "?t \<noteq> []" by (simp add: dropWhile_eq_Nil_conv)
  then have hdt: "hd ?t \<noteq> slash" using hd_dropWhile [of ?P s] by simp
  have "hd ?t \<in> set (rev ?t)" using t by simp
  with hdt have "\<not> (\<forall>c \<in> set (rev ?t). ?P c)" by blast
  then have core: "dropWhile ?P (rev ?t) \<noteq> []" by (simp add: dropWhile_eq_Nil_conv)
  then have lastc: "last ?core \<noteq> slash"
    using hd_dropWhile [of ?P "rev ?t"] by (simp add: last_rev)
  have split: "?t = ?core @ ?sl2"
    by (metis rev_append rev_rev_ident takeWhile_dropWhile_id)
  have hdc: "hd ?core \<noteq> slash"
    using core hdt split by (metis hd_append2 rev_is_Nil_conv)
  have "s = takeWhile ?P s @ ?core @ ?sl2"
    using split by (metis takeWhile_dropWhile_id)
  moreover have "\<forall>c \<in> set (takeWhile ?P s). c = slash"
    by (auto dest: set_takeWhileD)
  moreover have "\<forall>c \<in> set ?sl2. c = slash"
    by (auto dest: set_takeWhileD)
  ultimately show ?thesis
    using core hdc lastc by (metis rev_is_Nil_conv)
qed

lemma matchAll_trim_tail:
  assumes "core \<noteq> []" and "hd core \<noteq> slash" and "last core \<noteq> slash"
    and "\<forall>c \<in> set sl2. c = slash"
  shows "matchAll_from False trimSlashesRe (pre @ core @ sl2) (length pre)
         = (if sl2 = [] then []
            else [\<lparr>index = length pre + length core, endIndex = length (pre @ core @ sl2),
                   groups = []\<rparr>])"
proof -
  let ?s = "pre @ core @ sl2"
  have scan: "exec False trimSlashesRe ?s (length pre)
              = exec False trimSlashesRe ?s (length pre + length core)"
    using assms(1,2,3) by (intro exec_trim_scan) simp_all
  show ?thesis
  proof (cases "sl2 = []")
    case True
    then have "exec False trimSlashesRe ?s (length pre + length core) = None"
      using exec_trim_end [of "pre @ core"] by simp
    then show ?thesis using True scan by (subst matchAll_from.simps) simp
  next
    case False
    let ?m = "\<lparr>index = length pre + length core, endIndex = length ?s, groups = []\<rparr>"
    have "exec False trimSlashesRe ?s (length pre + length core) = Some ?m"
      using exec_trim_tail [of sl2 "pre @ core"] False assms(1,4) by simp
    moreover have "matchAll_from False trimSlashesRe ?s (length ?s) = []"
      using exec_trim_end [of ?s] by (subst matchAll_from.simps) simp
    ultimately show ?thesis
      using False scan by (subst matchAll_from.simps) simp
  qed
qed

lemma strip_slashes_decomposed:
  assumes "\<forall>c \<in> set sl1. c = slash" and "\<forall>c \<in> set sl2. c = slash"
    and "core \<noteq> []" and "hd core \<noteq> slash" and "last core \<noteq> slash"
  shows "strip_slashes (sl1 @ core @ sl2) = core"
proof -
  let ?P = "\<lambda>c. c = slash"
  have "dropWhile ?P (sl1 @ core @ sl2) = core @ sl2"
    using assms(1,3,4) by (cases core) (simp_all add: dropWhile_append2)
  moreover have "dropWhile ?P (rev sl2 @ rev core) = dropWhile ?P (rev core)"
    using assms(2) by (intro dropWhile_append2) simp
  moreover have "dropWhile ?P (rev core) = rev core"
    using assms(3,5) by (cases "rev core") (auto simp: hd_rev [symmetric])
  ultimately show ?thesis by (simp add: strip_slashes_def)
qed

lemma replace_trim_slashes: "replace_global False trimSlashesRe s [] = strip_slashes s"
proof -
  let ?P = "\<lambda>c. c = slash"
  from slashes_core_slashes [of s] show ?thesis
  proof (elim disjE exE conjE)
    assume all: "\<forall>c \<in> set s. c = slash"
    then have st: "strip_slashes s = []"
      by (auto simp: strip_slashes_def dest: set_dropWhileD)
    show ?thesis
    proof (cases s)
      case Nil
      have "matchAll_from False trimSlashesRe [] 0 = []"
        using exec_trim_end [of "[]"] by (subst matchAll_from.simps) simp
      then show ?thesis using Nil st by (simp add: replace_global_def matchAll_def)
    next
      case (Cons c r)
      with all have s: "s = slash # r" by simp
      have tw: "takeWhile ?P s = s" using all by (simp add: takeWhile_eq_all_conv)
      let ?m = "\<lparr>index = 0, endIndex = length s, groups = []\<rparr>"
      have "exec False trimSlashesRe s 0 = Some ?m"
        using exec_trim_start [OF s] tw by simp
      moreover have "matchAll_from False trimSlashesRe s (length s) = []"
        by (subst matchAll_from.simps) (simp add: exec_trim_end)
      ultimately have "matchAll_from False trimSlashesRe s 0 = [?m]"
        using s by (subst matchAll_from.simps) simp
      then show ?thesis using st by (simp add: replace_global_def matchAll_def)
    qed
  next
    fix sl1 core sl2
    assume s: "s = sl1 @ core @ sl2" and a: "\<forall>c \<in> set sl1. c = slash" "\<forall>c \<in> set sl2. c = slash"
      "core \<noteq> []" "hd core \<noteq> slash" "last core \<noteq> slash"
    have st: "strip_slashes s = core"
      unfolding s using a by (rule strip_slashes_decomposed)
    let ?tail = "if sl2 = [] then []
                 else [\<lparr>index = length sl1 + length core, endIndex = length s, groups = []\<rparr>]"
    have tail: "matchAll_from False trimSlashesRe s (length sl1) = ?tail"
      unfolding s using matchAll_trim_tail [OF a(3,4,5,2), of sl1] by simp
    show ?thesis
    proof (cases sl1)
      case Nil
      then have "matchAll False trimSlashesRe s = ?tail"
        using tail by (simp add: matchAll_def)
      then show ?thesis
        using st Nil s by (simp add: replace_global_def)
    next
      case (Cons c r)
      with a(1) s have s': "s = slash # (r @ core @ sl2)" by simp
      have tw: "takeWhile ?P s = sl1"
        unfolding s using a(1,3,4) by (cases core) (simp_all add: takeWhile_append2)
      let ?m = "\<lparr>index = 0, endIndex = length sl1, groups = []\<rparr>"
      have "exec False trimSlashesRe s 0 = Some ?m"
        using exec_trim_start [OF s'] tw by simp
      then have "matchAll False trimSlashesRe s = ?m # ?tail"
        using tail Cons by (subst matchAll_def, subst matchAll_from.simps) simp
      then show ?thesis
        using st s by (simp add: replace_global_def)
    qed
  qed
qed

section \<open>The storage key, as the specification words it\<close>

text \<open>
  The normalised prefix is the stripped prefix followed by one slash, or empty when nothing
  is left of the prefix. The extension of a file name is the text after its last dot.
\<close>

definition normalized_prefix :: "jsstring \<Rightarrow> jsstring" where
  "normalized_prefix p = (let q = strip_slashes p in if q = [] then [] else q @ [slash])"

definition extension :: "jsstring \<Rightarrow> jsstring" where
  "extension fname =
     (if dot \<in> set fname then rev (takeWhile (\<lambda>c. c \<noteq> dot) (rev fname)) else [])"

lemma js_includes_unit: "js_includes s [c] = (c \<in> set s)"
  by (induction s) (auto simp: js_includes_def)

lemma split_no_sep: "sep \<notin> set s \<Longrightarrow> split sep s = [s]"
  by (induction s) auto

lemma split_last_part:
  "sep \<notin> set b \<Longrightarrow> \<exists>ps. split sep (a @ sep # b) = ps @ [b] \<and> ps \<noteq> []"
proof (induction a)
  case Nil
  then have "split sep ([] @ sep # b) = [[]] @ [b]" by (simp add: split_no_sep)
  then show ?case by blast
next
  case (Cons x a)
  from Cons.IH [OF Cons.prems] obtain ps where ps: "split sep (a @ sep # b) = ps @ [b]" "ps \<noteq> []"
    by blast
  then obtain q qs where q: "ps = q # qs" by (cases ps) auto
  show ?case
  proof (cases "x = sep")
    case True
    then have "split sep ((x # a) @ sep # b) = ([] # ps) @ [b]" using ps by simp
    then show ?thesis by blast
  next
    case False
    then have "split sep ((x # a) @ sep # b) = ((x # q) # qs) @ [b]" using ps q by simp
    then show ?thesis by blast
  qed
qed

lemma file_ext_extension: "file_ext fname = extension fname"
proof (cases "dot \<in> set fname")
  case False
  then show ?thesis by (simp add: file_ext_def extension_def js_includes_unit js_def dot_def)
next
  case True
  then obtain a b where ab: "fname = a @ dot # b" "dot \<notin> set b"
    by (meson split_list_last)
  from split_last_part [OF ab(2), of a] ab(1) have l: "last (split dot fname) = b" by auto
  have "takeWhile (\<lambda>c. c \<noteq> dot) (rev b) = rev b"
    using ab(2) by (auto simp: takeWhile_eq_all_conv)
  moreover have "takeWhile (\<lambda>c. c \<noteq> dot) (rev fname) = takeWhile (\<lambda>c. c \<noteq> dot) (rev b)"
    using ab(1) by (simp add: takeWhile_tail)
  ultimately have "rev (takeWhile (\<lambda>c. c \<noteq> dot) (rev fname)) = b"
    by (simp only: rev_rev_ident)
  moreover have "js_includes fname (js ''.'')"
    using True by (simp add: js_includes_unit js_def dot_def)
  ultimately show ?thesis using True l by (simp add: file_ext_def extension_def)
qed

lemma normPrefix_normalized: "normPrefix st = normalized_prefix (prefix st)"
  by (simp add: normPrefix_def normalized_prefix_def replace_trim_slashes Let_def js_def slash_def)

lemma strip_slashes_shape:
  "(\<exists>sl1 sl2. p = sl1 @ strip_slashes p @ sl2 \<and> (\<forall>c \<in> set sl1. c = slash) \<and> (\<forall>c \<in> set sl2. c = slash))
   \<and> (strip_slashes p \<noteq> [] \<longrightarrow> hd (strip_slashes p) \<noteq> slash \<and> last (strip_slashes p) \<noteq> slash)"
proof -
  from slashes_core_slashes [of p] show ?thesis
  proof (elim disjE exE conjE)
    assume all: "\<forall>c \<in> set p. c = slash"
    then have "strip_slashes p = []"
      by (auto simp: strip_slashes_def dest: set_dropWhileD)
    moreover from all have "p = p @ [] @ [] \<and> (\<forall>c \<in> set p. c = slash) \<and> (\<forall>c \<in> set ([] :: jsstring). c = slash)"
      by simp
    ultimately show ?thesis by metis
  next
    fix sl1 core sl2
    assume s: "p = sl1 @ core @ sl2" and a: "\<forall>c \<in> set sl1. c = slash" "\<forall>c \<in> set sl2. c = slash"
      "core \<noteq> []" "hd core \<noteq> slash" "last core \<noteq> slash"
    have "strip_slashes p = core"
      unfolding s using a by (rule strip_slashes_decomposed)
    then show ?thesis using s a by metis
  qed
qed

section \<open>Concrete inputs for the examples\<close>

definition host0 :: host where
  "host0 = \<lparr>range_cursor = (\<lambda>d a b t c. c), value_cursor = (\<lambda>d v c. c)\<rparr>"

definition st0 :: TosPicbedPluginSettings where
  "st0 = \<lparr>secretId = js ''id'', secretKey = js ''key'', bucket = js ''b'', region = js ''r'',
           prefix = js ''img'', usePublicUrl = True\<rparr>"

definition world0 :: "jsstring \<Rightarrow> nat \<Rightarrow> world" where
  "world0 d c = \<lparr>ed = \<lparr>doc = d, cursor = c\<rparr>, notices = [], remote = [], defaultPrevented = False\<rparr>"

definition two_refs :: jsstring where
  "two_refs = js ''a![](k1)b![x](/k2)c''"

definition second_fails :: "nat \<Rightarrow> js_error option" where
  "second_fails i = (if i = 1 then Some (ClientError (js ''denied'')) else None)"

definition denied :: js_error where
  "denied = ClientError (js ''denied'')"

definition token0 :: jsstring where
  "token0 = make_token 1700000000000 (js ''0.abcdef'')"



lemma token0_value: "token0 = js ''{{TOS_UPLOADING:1700000000000-abcdef}}''"
  by (simp add: token0_def make_token_def number_toString_def digits.simps digit_unit_def
      random_suffix_def slice_def js_def)
lemma editor_eqI: "doc e = d \<Longrightarrow> cursor e = c \<Longrightarrow> e = \<lparr>doc = d, cursor = c\<rparr>"
  by (cases e) simp

definition item_fails :: clip_item where
  "item_fails = \<lparr>kind = js ''file'', mime = js ''image/png'', asFile = Some (js ''a.png''),
                  token_now = 1700000000000, rnd36 = js ''0.abcdef'', upload_now = 1700000000001,
                  reply = \<lparr>put_reply = Some denied, presigned = Inl denied\<rparr>,
                  user_edit = (\<lambda>e. e)\<rparr>"

definition item_ok :: clip_item where
  "item_ok = \<lparr>kind = js ''file'', mime = js ''image/png'', asFile = Some (js ''b.png''),
               token_now = 1700000000002, rnd36 = js ''0.ghijkl'', upload_now = 1700000000003,
               reply = \<lparr>put_reply = None, presigned = Inl denied\<rparr>,
               user_edit = (\<lambda>e. e)\<rparr>"

definition world_tokens :: world where
  "world_tokens = world0 (js ''a'' @ token0 @ js ''b'' @ token0) 0"

definition st_slashes :: TosPicbedPluginSettings where
  "st_slashes = st0\<lparr>prefix := js ''//img/a//''\<rparr>"

definition reply_ok :: client_reply where
  "reply_ok = \<lparr>put_reply = None, presigned = Inl denied\<rparr>"

section \<open>Claims\<close>

text \<open>
  C9. Two placeholder tokens generated from inputs that differ in the timestamp or in the
  random suffix are different strings: the token encoding is injective in the pair
  (time, suffix), so two tokens of the same millisecond differ as soon as their
  suffixes do.
\<close>

theorem token_distinct:
  "(t1, random_suffix r1) \<noteq> (t2, random_suffix r2) \<Longrightarrow> make_token t1 r1 \<noteq> make_token t2 r2"
proof
  assume ne: "(t1, random_suffix r1) \<noteq> (t2, random_suffix r2)"
  assume eq: "make_token t1 r1 = make_token t2 r2"
  then have "number_toString t1 @ js ''-'' @ (random_suffix r1 @ js ''}}'')
           = number_toString t2 @ js ''-'' @ (random_suffix r2 @ js ''}}'')"
    by (simp add: make_token_def)
  then have "t1 = t2 \<and> random_suffix r1 @ js ''}}'' = random_suffix r2 @ js ''}}''"
    by (rule number_toString_sep_inj)
  with ne show False by simp
qed

theorem token_distinct_witness:
  "(1700000000000 :: int, random_suffix (js ''0.abcdef'')) \<noteq> (1700000000000, random_suffix (js ''0.abcdeg''))
   \<and> make_token 1700000000000 (js ''0.abcdef'') \<noteq> make_token 1700000000000 (js ''0.abcdeg'')"
proof -
  have h: "(1700000000000 :: int, random_suffix (js ''0.abcdef''))
        \<noteq> (1700000000000, random_suffix (js ''0.abcdeg''))"
    by (simp add: random_suffix_def slice_def js_def)
  show ?thesis using h token_distinct [OF h] by simp
qed

text \<open>
  C4. With an uploader and at least one image reference in the buffer, Delete-all rewrites
  the buffer once, to the text without any of the matched spans, whatever the remote deletes
  answer. One delete is issued per match, and each failing delete gives one failure notice
  of its own, followed by the notice of the count. The example has two references, the
  second delete fails: both references are removed and there is exactly one failure notice.
\<close>

theorem delete_all_strips:
  assumes "matchAll False imageRefRe (getValue (ed w)) \<noteq> []"
  shows "let all = getValue (ed w); ms = matchAll False imageRefRe all;
             w' = delete_all h U (Some st) del w
         in doc (ed w') = strip_spans all ms
            \<and> remote w' = remote w @ map (\<lambda>m. DeleteObject (bucket st) (parseKeyFromUrlOrKey U (group all m 1))) ms
            \<and> notices w' = notices w @ failure_notices del [0..<length ms] @ [DeletedCount (length ms)]
            \<and> length (failure_notices del [0..<length ms])
                = length (filter (\<lambda>i. del i \<noteq> None) [0..<length ms])"
  using assms
  by (simp add: delete_all_def Let_def notify_def called_def setValue_def replace_global_strip
      delete_keys_calls delete_keys_notices split_beta comp_def failure_notices_length)

theorem delete_all_strips_witness:
  "matchAll False imageRefRe (getValue (ed (world0 two_refs 0))) \<noteq> []
   \<and> doc (ed (delete_all host0 reference_URL (Some st0) second_fails (world0 two_refs 0))) = js ''abc''
   \<and> remote (delete_all host0 reference_URL (Some st0) second_fails (world0 two_refs 0))
       = [DeleteObject (js ''b'') (js ''k1''), DeleteObject (js ''b'') (js ''k2'')]
   \<and> notices (delete_all host0 reference_URL (Some st0) second_fails (world0 two_refs 0))
       = [DeleteKeyFailed (ClientError (js ''denied'')), DeletedCount 2]"
proof -
  let ?all = "getValue (ed (world0 two_refs 0))"
  let ?ms = "matchAll False imageRefRe ?all"
  have h: "?ms \<noteq> []"
    by code_simp
  have e1: "strip_spans ?all ?ms = js ''abc''"
    by code_simp
  have e2: "remote (world0 two_refs 0)
            @ map (\<lambda>m. DeleteObject (bucket st0) (parseKeyFromUrlOrKey reference_URL (group ?all m 1))) ?ms
            = [DeleteObject (js ''b'') (js ''k1''), DeleteObject (js ''b'') (js ''k2'')]"
    by code_simp
  have e3: "notices (world0 two_refs 0) @ failure_notices second_fails [0..<length ?ms] @ [DeletedCount (length ?ms)]
            = [DeleteKeyFailed (ClientError (js ''denied'')), DeletedCount 2]"
    by code_simp
  from delete_all_strips [OF h, of host0 reference_URL st0 second_fails] e1 e2 e3 h
  show ?thesis by (simp only: Let_def) simp
qed

text \<open>
  C7. On a buffer without image reference Delete-all only reports that no images were
  found: the editor and the list of remote calls stay as they are, also when Delete-all is
  applied again.
\<close>

theorem delete_all_no_images:
  assumes "matchAll False imageRefRe (getValue (ed w)) = []"
  shows "let w' = delete_all h U up del w
         in ed w' = ed w \<and> remote w' = remote w \<and> notices w' = notices w @ [NoImagesFound]
            \<and> ed (delete_all h U up del w') = ed w \<and> remote (delete_all h U up del w') = remote w"
  using assms by (simp add: delete_all_def Let_def notify_def)

theorem delete_all_no_images_witness:
  "matchAll False imageRefRe (getValue (ed (world0 (js ''no image here'') 0))) = []
   \<and> ed (delete_all host0 reference_URL (Some st0) second_fails (world0 (js ''no image here'') 0))
       = ed (world0 (js ''no image here'') 0)
   \<and> remote (delete_all host0 reference_URL (Some st0) second_fails (world0 (js ''no image here'') 0)) = []
   \<and> notices (delete_all host0 reference_URL (Some st0) second_fails (world0 (js ''no image here'') 0))
       = [NoImagesFound]"
proof -
  have h: "matchAll False imageRefRe (getValue (ed (world0 (js ''no image here'') 0))) = []"
    by code_simp
  have r: "remote (world0 (js ''no image here'') 0) = []" "notices (world0 (js ''no image here'') 0) = []"
    by (simp_all add: world0_def)
  from delete_all_no_images [OF h, of host0 reference_URL "Some st0" second_fails] h r
  show ?thesis by (simp only: Let_def) simp
qed

text \<open>
  C10. Without an uploader, Delete-all on a buffer with at least one image reference still
  removes every matched span and reports the count, and issues no remote call.
\<close>

theorem delete_all_without_uploader:
  assumes "matchAll False imageRefRe (getValue (ed w)) \<noteq> []"
  shows "let all = getValue (ed w); ms = matchAll False imageRefRe all;
             w' = delete_all h U None del w
         in doc (ed w') = strip_spans all ms \<and> remote w' = remote w
            \<and> notices w' = notices w @ [DeletedCount (length ms)]"
  using assms
  by (simp add: delete_all_def Let_def notify_def setValue_def replace_global_strip)

theorem delete_all_without_uploader_witness:
  "matchAll False imageRefRe (getValue (ed (world0 two_refs 0))) \<noteq> []
   \<and> doc (ed (delete_all host0 reference_URL None second_fails (world0 two_refs 0))) = js ''abc''
   \<and> remote (delete_all host0 reference_URL None second_fails (world0 two_refs 0)) = []
   \<and> notices (delete_all host0 reference_URL None second_fails (world0 two_refs 0)) = [DeletedCount 2]"
proof -
  let ?all = "getValue (ed (world0 two_refs 0))"
  let ?ms = "matchAll False imageRefRe ?all"
  have h: "?ms \<noteq> []"
    by code_simp
  have e1: "strip_spans ?all ?ms = js ''abc''"
    by code_simp
  have e2: "remote (world0 two_refs 0) = []"
    by (simp add: world0_def)
  have e3: "notices (world0 two_refs 0) @ [DeletedCount (length ?ms)] = [DeletedCount 2]"
    by code_simp
  from delete_all_without_uploader [OF h, of host0 reference_URL second_fails] e1 e2 e3 h
  show ?thesis by (simp only: Let_def) simp
qed

text \<open>
  C3, as the code has it. In Delete-one a failure of the remote delete blocks the local
  removal: the call of \<^verbatim>\<open>setLine\<close> comes after the awaited delete inside the same
  \<^verbatim>\<open>try\<close>. When the delete raises an error, the editor is left as it was and the failure
  is reported; when it succeeds, the cursor line is rewritten without the first occurrence
  of the matched text and success is reported.
\<close>

theorem delete_one_blocked_by_failure:
  assumes "exec False imageRefRe (getLine (line (getCursor (ed w))) (ed w)) 0 = Some m"
  shows "let cur = getCursor (ed w); ln = getLine (line cur) (ed w);
             key = parseKeyFromUrlOrKey U (group ln m 1);
             wf = delete_one h U (Some st) (Some e) w;
             ws = delete_one h U (Some st) None w
         in ed wf = ed w
            \<and> notices wf = notices w @ [DeleteFailed e]
            \<and> remote wf = remote w @ [DeleteObject (bucket st) key]
            \<and> ed ws = setLine h (line cur) (replace_string ln (matched ln m) []) (ed w)
            \<and> notices ws = notices w @ [DeleteSucceeded]
            \<and> remote ws = remote w @ [DeleteObject (bucket st) key]"
  using assms
  by (simp add: delete_one_def Let_def deleteByKey_def notify_def called_def)

theorem delete_one_blocked_by_failure_witness:
  "exec False imageRefRe (getLine (line (getCursor (ed (world0 (js ''x![](k)y'') 0)))) (ed (world0 (js ''x![](k)y'') 0))) 0
     = Some \<lparr>index = 1, endIndex = 7, groups = [(1, 5, 6)]\<rparr>
   \<and> doc (ed (delete_one host0 reference_URL (Some st0) (Some denied) (world0 (js ''x![](k)y'') 0)))
       = js ''x![](k)y''
   \<and> doc (ed (delete_one host0 reference_URL (Some st0) None (world0 (js ''x![](k)y'') 0))) = js ''xy''"
proof -
  let ?w = "world0 (js ''x![](k)y'') 0"
  let ?m = "\<lparr>index = 1, endIndex = 7, groups = [(1, 5, 6)]\<rparr>"
  have h: "exec False imageRefRe (getLine (line (getCursor (ed ?w))) (ed ?w)) 0 = Some ?m"
    by code_simp
  have e1: "doc (ed ?w) = js ''x![](k)y''"
    by (simp add: world0_def)
  have e2: "doc (setLine host0 (line (getCursor (ed ?w)))
                  (replace_string (getLine (line (getCursor (ed ?w))) (ed ?w))
                     (matched (getLine (line (getCursor (ed ?w))) (ed ?w)) ?m) []) (ed ?w)) = js ''xy''"
    by code_simp
  from delete_one_blocked_by_failure [OF h, of reference_URL host0 st0 denied] e1 e2 h
  show ?thesis by (simp only: Let_def)
qed


text \<open>
  C3, as the specification states it, fails: with the line \<open>x![](k)y\<close> and a delete that
  raises an error, the line still holds the image reference afterwards.
\<close>

theorem delete_one_failure_counterexample:
  "exec False imageRefRe (getLine (line (getCursor (ed (world0 (js ''x![](k)y'') 0)))) (ed (world0 (js ''x![](k)y'') 0))) 0 \<noteq> None
   \<and> getLine 0 (ed (delete_one host0 reference_URL (Some st0) (Some denied) (world0 (js ''x![](k)y'') 0)))
       = js ''x![](k)y''
   \<and> notices (delete_one host0 reference_URL (Some st0) (Some denied) (world0 (js ''x![](k)y'') 0))
       = [DeleteFailed denied]"
  by code_simp

text \<open>
  C5. The clean-up loop is a total function: each round deletes a non-empty match, so the
  text gets shorter and the recursion ends. In its result the pattern has no match. On the
  text of the example only \<open>x\<close> is left.
\<close>

theorem cleanup_leaves_no_match:
  "exec True imgRe (getValue (cleanup h e)) 0 = None
   \<and> doc (cleanup h \<lparr>doc = js ''![[Pasted image 1.png]]x![[Pasted image 2.jpg]]'', cursor = c\<rparr>)
       = js ''x''"
proof
  show "exec True imgRe (getValue (cleanup h e)) 0 = None"
  proof (induction h e rule: cleanup.induct)
    case (1 h e)
    show ?case
    proof (cases "exec True imgRe (getValue e) 0")
      case None
      then show ?thesis by (simp add: cleanup.simps [of h e])
    next
      case (Some m)
      with "1.IH" [OF Some] show ?thesis by (simp add: cleanup.simps [of h e])
    qed
  qed
  show "doc (cleanup h \<lparr>doc = js ''![[Pasted image 1.png]]x![[Pasted image 2.jpg]]'', cursor = c\<rparr>)
        = js ''x''"
    by code_simp
qed

text \<open>
  C2. When the upload has succeeded and the placeholder token is found at offset \<open>idx\<close> of
  the current buffer, the token is replaced by \<open>![](url)\<close>. If the cursor was exactly at
  the end of the token, it is set to the end of the inserted reference. For every other
  cursor position the handler does not set the cursor: it is what \<^verbatim>\<open>replaceRange\<close> alone
  leaves. For the buffer \<open>abc\<close> followed by a token, with the cursor at the end, the result
  is \<open>abc![](u)\<close> with the cursor at its end.
\<close>

theorem replace_token_cursor:
  "(indexOf (getValue e) token = Some idx \<longrightarrow>
     (let to = offsetToPos e (idx + length token);
          md = finalMd url;
          e' = replace_token h token url e
      in doc e' = take idx (doc e) @ md @ drop (idx + length token) (doc e)
         \<and> (getCursor e = to \<longrightarrow>
              cursor e' = idx + length md \<and> getCursor e' = offsetToPos e' (idx + length md))
         \<and> (getCursor e \<noteq> to \<longrightarrow>
              e' = replaceRange h md (offsetToPos e idx) to e
              \<and> cursor e' = range_cursor h (doc e) idx (idx + length token) md (cursor e))))
   \<and> replace_token h (make_token t r) u
         \<lparr>doc = js ''abc'' @ make_token t r, cursor = length (js ''abc'' @ make_token t r)\<rparr>
       = \<lparr>doc = js ''abc'' @ finalMd u, cursor = length (js ''abc'' @ finalMd u)\<rparr>"
proof (intro conjI impI)
  assume "indexOf (getValue e) token = Some idx"
  then show "let to = offsetToPos e (idx + length token);
          md = finalMd url;
          e' = replace_token h token url e
      in doc e' = take idx (doc e) @ md @ drop (idx + length token) (doc e)
         \<and> (getCursor e = to \<longrightarrow>
              cursor e' = idx + length md \<and> getCursor e' = offsetToPos e' (idx + length md))
         \<and> (getCursor e \<noteq> to \<longrightarrow>
              e' = replaceRange h md (offsetToPos e idx) to e
              \<and> cursor e' = range_cursor h (doc e) idx (idx + length token) md (cursor e))"
    by (rule replace_token_general)
next
  let ?tok = "make_token t r"
  let ?e = "\<lparr>doc = js ''abc'' @ ?tok, cursor = length (js ''abc'' @ ?tok)\<rparr>"
  have i: "indexOf (getValue ?e) ?tok = Some 3"
    by (simp add: getValue_def indexOf_abc_token)
  have l3: "length (js ''abc'') = 3" by (simp add: js_def)
  have "cursor ?e = 3 + length ?tok" by (simp add: l3)
  then have c: "getCursor ?e = offsetToPos ?e (3 + length ?tok)"
    by (simp only: getCursor_def)
  from replace_token_general [OF i, of u h] c
  have "doc (replace_token h ?tok u ?e) = js ''abc'' @ finalMd u"
    "cursor (replace_token h ?tok u ?e) = 3 + length (finalMd u)"
    by (simp_all add: Let_def l3)
  then show "replace_token h ?tok u ?e
             = \<lparr>doc = js ''abc'' @ finalMd u, cursor = length (js ''abc'' @ finalMd u)\<rparr>"
    by (simp add: l3)
qed

theorem replace_token_cursor_witness:
  "indexOf (getValue \<lparr>doc = js ''abc'' @ token0 @ js ''def'', cursor = 3 + length token0\<rparr>) token0 = Some 3
   \<and> replace_token host0 token0 (js ''u'') \<lparr>doc = js ''abc'' @ token0 @ js ''def'', cursor = 3 + length token0\<rparr>
       = \<lparr>doc = js ''abc![](u)def'', cursor = 9\<rparr>
   \<and> indexOf (getValue \<lparr>doc = js ''abc'' @ token0 @ js ''def'', cursor = 1\<rparr>) token0 = Some 3
   \<and> replace_token host0 token0 (js ''u'') \<lparr>doc = js ''abc'' @ token0 @ js ''def'', cursor = 1\<rparr>
       = \<lparr>doc = js ''abc![](u)def'', cursor = 1\<rparr>"
proof -
  let ?e = "\<lparr>doc = js ''abc'' @ token0 @ js ''def'', cursor = 3 + length token0\<rparr>"
  let ?f = "\<lparr>doc = js ''abc'' @ token0 @ js ''def'', cursor = 1\<rparr>"
  let ?u = "js ''u''"
  have i: "indexOf (getValue ?e) token0 = Some 3" "indexOf (getValue ?f) token0 = Some 3"
    unfolding token0_value by code_simp+
  have c: "getCursor ?e = offsetToPos ?e (3 + length token0)"
    "getCursor ?f \<noteq> offsetToPos ?f (3 + length token0)"
    unfolding token0_value by code_simp+
  have d: "take 3 (doc ?e) @ finalMd ?u @ drop (3 + length token0) (doc ?e) = js ''abc![](u)def''"
    "take 3 (doc ?f) @ finalMd ?u @ drop (3 + length token0) (doc ?f) = js ''abc![](u)def''"
    "3 + length (finalMd ?u) = 9"
    "range_cursor host0 (doc ?f) 3 (3 + length token0) (finalMd ?u) (cursor ?f) = 1"
    unfolding token0_value by code_simp+
  have A: "doc (replace_token host0 token0 ?u ?e)
           = take 3 (doc ?e) @ finalMd ?u @ drop (3 + length token0) (doc ?e)"
    "cursor (replace_token host0 token0 ?u ?e) = 3 + length (finalMd ?u)"
    using replace_token_cursor [of ?e token0 3 ?u host0, unfolded Let_def] i(1) c(1) by blast+
  have B: "doc (replace_token host0 token0 ?u ?f)
           = take 3 (doc ?f) @ finalMd ?u @ drop (3 + length token0) (doc ?f)"
    "cursor (replace_token host0 token0 ?u ?f)
     = range_cursor host0 (doc ?f) 3 (3 + length token0) (finalMd ?u) (cursor ?f)"
    using replace_token_cursor [of ?f token0 3 ?u host0, unfolded Let_def] i(2) c(2) by blast+
  have "replace_token host0 token0 ?u ?e = \<lparr>doc = js ''abc![](u)def'', cursor = 9\<rparr>"
    by (rule editor_eqI) (simp_all only: A d)
  moreover have "replace_token host0 token0 ?u ?f = \<lparr>doc = js ''abc![](u)def'', cursor = 1\<rparr>"
    by (rule editor_eqI) (simp_all only: B d)
  ultimately show ?thesis
    using i by blast
qed

text \<open>
  C6. When the upload of one image fails and the placeholder token occurs in the current
  buffer, at first offset \<open>i\<close>, the catch branch removes exactly that occurrence, sets the
  cursor to the end of the new text and reports the failure; it makes no remote call. The
  handler then goes on with the remaining images: whatever the outcomes, every image with a
  file gets one upload and one notice, and the handler never issues a remote delete.
\<close>

theorem upload_failure_rollback:
  "(indexOf (getValue (ed w)) token = Some i \<longrightarrow>
      (let w' = on_upload_failure h token e w
       in doc (ed w') = take i (doc (ed w)) @ drop (i + length token) (doc (ed w))
          \<and> (\<forall>j<i. take (length token) (drop j (doc (ed w))) \<noteq> token)
          \<and> cursor (ed w') = length (doc (ed w'))
          \<and> notices w' = notices w @ [UploadFailed e]
          \<and> remote w' = remote w))
   \<and> (asFile it = Some f \<and> fst (uploadFile st f (upload_now it) (reply it)) = Inl e \<longrightarrow>
        (let tk = make_token (token_now it) (rnd36 it);
             w1 = w\<lparr>ed := replaceRange h tk (getCursor (ed w)) (getCursor (ed w)) (ed w)\<rparr>;
             w2 = called (snd (uploadFile st f (upload_now it) (reply it)))
                    (w1\<lparr>ed := user_edit it (ed w1)\<rparr>)
         in paste_images h st (it # its) w = paste_images h st its (on_upload_failure h tk e w2)))
   \<and> filter is_delete (remote (paste_images h st its w)) = filter is_delete (remote w)
   \<and> length (filter is_put (remote (paste_images h st its w)))
       = length (filter is_put (remote w)) + length (with_file its)
   \<and> length (notices (paste_images h st its w)) = length (notices w) + length (with_file its)"
proof (intro conjI impI)
  assume i: "indexOf (getValue (ed w)) token = Some i"
  let ?d = "doc (ed w)"
  let ?after = "take i ?d @ drop (i + length token) ?d"
  let ?e2 = "setValue h ?after (ed w)"
  have inc: "js_includes (getValue (ed w)) token"
    using i by (simp add: js_includes_def)
  have rs: "replace_string (getValue (ed w)) token [] = ?after"
    using i by (simp add: replace_string_def getValue_def)
  have d2: "doc ?e2 = ?after" by (simp add: setValue_def)
  have c: "cursor (setCursor (offsetToPos ?e2 (length ?after)) ?e2) = length ?after"
    using posToOffset_offsetToPos [of "length ?after" ?e2] by (simp add: setCursor_def d2)
  have e: "ed (on_upload_failure h token e w) = setCursor (offsetToPos ?e2 (length ?after)) ?e2"
    using inc rs by (simp add: on_upload_failure_def Let_def notify_def)
  have first: "\<forall>j<i. take (length token) (drop j ?d) \<noteq> token"
    using indexOf_first [OF i [unfolded getValue_def]] by blast
  show "let w' = on_upload_failure h token e w
       in doc (ed w') = take i (doc (ed w)) @ drop (i + length token) (doc (ed w))
          \<and> (\<forall>j<i. take (length token) (drop j (doc (ed w))) \<noteq> token)
          \<and> cursor (ed w') = length (doc (ed w'))
          \<and> notices w' = notices w @ [UploadFailed e]
          \<and> remote w' = remote w"
    using first c by (simp add: Let_def e on_upload_failure_effects setCursor_def d2)
next
  assume a: "asFile it = Some f \<and> fst (uploadFile st f (upload_now it) (reply it)) = Inl e"
  then show "let tk = make_token (token_now it) (rnd36 it);
             w1 = w\<lparr>ed := replaceRange h tk (getCursor (ed w)) (getCursor (ed w)) (ed w)\<rparr>;
             w2 = called (snd (uploadFile st f (upload_now it) (reply it)))
                    (w1\<lparr>ed := user_edit it (ed w1)\<rparr>)
         in paste_images h st (it # its) w = paste_images h st its (on_upload_failure h tk e w2)"
    by (simp add: Let_def split_beta)
qed (simp_all add: paste_images_effects)


theorem upload_failure_rollback_witness:
  "indexOf (getValue (ed world_tokens)) token0 = Some 1
   \<and> doc (ed (on_upload_failure host0 token0 denied world_tokens)) = js ''ab'' @ token0
   \<and> cursor (ed (on_upload_failure host0 token0 denied world_tokens)) = length (js ''ab'' @ token0)
   \<and> notices (on_upload_failure host0 token0 denied world_tokens) = [UploadFailed denied]
   \<and> asFile item_fails = Some (js ''a.png'')
   \<and> fst (uploadFile st0 (js ''a.png'') (upload_now item_fails) (reply item_fails)) = Inl denied
   \<and> length (filter is_put (remote (paste_images host0 st0 [item_fails, item_ok] world_tokens))) = 2
   \<and> filter is_delete (remote (paste_images host0 st0 [item_fails, item_ok] world_tokens)) = []
   \<and> length (notices (paste_images host0 st0 [item_fails, item_ok] world_tokens)) = 2"
proof -
  let ?w = world_tokens
  let ?wf = "on_upload_failure host0 token0 denied ?w"
  let ?its = "[item_fails, item_ok]"
  have h1: "indexOf (getValue (ed ?w)) token0 = Some 1"
    by code_simp
  have h2: "asFile item_fails = Some (js ''a.png'')"
    "fst (uploadFile st0 (js ''a.png'') (upload_now item_fails) (reply item_fails)) = Inl denied"
    by code_simp+
  have v: "take 1 (doc (ed ?w)) @ drop (1 + length token0) (doc (ed ?w)) = js ''ab'' @ token0"
    "notices ?w @ [UploadFailed denied] = [UploadFailed denied]"
    "length (filter is_put (remote ?w)) + length (with_file ?its) = 2"
    "filter is_delete (remote ?w) = []"
    "length (notices ?w) + length (with_file ?its) = 2"
    by code_simp+
  note T = upload_failure_rollback [where w = ?w and token = token0 and i = 1 and h = host0
      and e = denied and it = item_fails and f = "js ''a.png''" and st = st0 and its = ?its,
      unfolded Let_def]
  from T h1 have A: "doc (ed ?wf) = take 1 (doc (ed ?w)) @ drop (1 + length token0) (doc (ed ?w))"
    "cursor (ed ?wf) = length (doc (ed ?wf))"
    "notices ?wf = notices ?w @ [UploadFailed denied]"
    by blast+
  from T have B: "length (filter is_put (remote (paste_images host0 st0 ?its ?w)))
                  = length (filter is_put (remote ?w)) + length (with_file ?its)"
    "filter is_delete (remote (paste_images host0 st0 ?its ?w)) = filter is_delete (remote ?w)"
    "length (notices (paste_images host0 st0 ?its ?w)) = length (notices ?w) + length (with_file ?its)"
    by blast+
  have "doc (ed ?wf) = js ''ab'' @ token0" by (simp only: A v)
  moreover from this have "cursor (ed ?wf) = length (js ''ab'' @ token0)" by (simp only: A(2))
  moreover have "notices ?wf = [UploadFailed denied]" by (simp only: A v)
  moreover have "length (filter is_put (remote (paste_images host0 st0 ?its ?w))) = 2"
    "filter is_delete (remote (paste_images host0 st0 ?its ?w)) = []"
    "length (notices (paste_images host0 st0 ?its ?w)) = 2"
    by (simp_all only: B v)
  ultimately show ?thesis using h1 h2 by blast
qed

text \<open>
  C8. The key that \<^verbatim>\<open>uploadFile\<close> sends to \<^verbatim>\<open>putObject\<close> and returns is the normalised
  prefix, the decimal time in milliseconds and, when the file name has a non-empty
  extension, a dot and the extension. The stripped prefix is the configured prefix without
  the slashes at its two ends: it neither starts nor ends with a slash, so the normalised
  prefix ends in exactly one.
\<close>

theorem storage_key_naming:
  "object_key st fname now
     = normalized_prefix (prefix st) @ number_toString now
       @ (if extension fname = [] then [] else dot # extension fname)
   \<and> (\<exists>sl1 sl2. prefix st = sl1 @ strip_slashes (prefix st) @ sl2
          \<and> (\<forall>c \<in> set sl1. c = slash) \<and> (\<forall>c \<in> set sl2. c = slash))
   \<and> (strip_slashes (prefix st) \<noteq> [] \<longrightarrow>
        hd (strip_slashes (prefix st)) \<noteq> slash \<and> last (strip_slashes (prefix st)) \<noteq> slash)
   \<and> hd (snd (uploadFile st fname now rp)) = PutObject (bucket st) (object_key st fname now)
   \<and> (\<forall>url key. fst (uploadFile st fname now rp) = Inr (url, key) \<longrightarrow> key = object_key st fname now)"
proof (intro conjI)
  show "object_key st fname now
     = normalized_prefix (prefix st) @ number_toString now
       @ (if extension fname = [] then [] else dot # extension fname)"
    by (simp add: object_key_def object_name_def normPrefix_normalized file_ext_extension Let_def
        js_def dot_def)
  show "hd (snd (uploadFile st fname now rp)) = PutObject (bucket st) (object_key st fname now)"
    by (simp add: uploadFile_def Let_def split: option.splits prod.splits sum.splits)
  show "\<forall>url key. fst (uploadFile st fname now rp) = Inr (url, key) \<longrightarrow> key = object_key st fname now"
    by (auto simp: uploadFile_def Let_def split: option.splits prod.splits sum.splits)
qed (use strip_slashes_shape [of "prefix st"] in blast)+


theorem storage_key_naming_witness:
  "strip_slashes (prefix st_slashes) \<noteq> []
   \<and> fst (uploadFile st_slashes (js ''photo.tar.PNG'') 1700000000000 reply_ok)
       = Inr (js ''https://b.tos-r.volces.com/img/a/1700000000000.PNG'', js ''img/a/1700000000000.PNG'')
   \<and> object_key st_slashes (js ''photo.tar.PNG'') 1700000000000 = js ''img/a/1700000000000.PNG''
   \<and> object_key (st0\<lparr>prefix := js ''///''\<rparr>) (js ''README'') 1700000000000 = js ''1700000000000''
   \<and> object_key st_slashes (js ''x.'') 1700000000000 = js ''img/a/1700000000000''
   \<and> hd (strip_slashes (prefix st_slashes)) \<noteq> slash \<and> last (strip_slashes (prefix st_slashes)) \<noteq> slash"
proof -
  let ?n = "1700000000000 :: int"
  have h: "strip_slashes (prefix st_slashes) \<noteq> []"
    "fst (uploadFile st_slashes (js ''photo.tar.PNG'') ?n reply_ok)
       = Inr (js ''https://b.tos-r.volces.com/img/a/1700000000000.PNG'', js ''img/a/1700000000000.PNG'')"
    by code_simp+
  have v: "normalized_prefix (prefix st_slashes) @ number_toString ?n
             @ (if extension (js ''photo.tar.PNG'') = [] then [] else dot # extension (js ''photo.tar.PNG''))
           = js ''img/a/1700000000000.PNG''"
    "normalized_prefix (prefix (st0\<lparr>prefix := js ''///''\<rparr>)) @ number_toString ?n
             @ (if extension (js ''README'') = [] then [] else dot # extension (js ''README''))
           = js ''1700000000000''"
    "normalized_prefix (prefix st_slashes) @ number_toString ?n
             @ (if extension (js ''x.'') = [] then [] else dot # extension (js ''x.''))
           = js ''img/a/1700000000000''"
    by code_simp+
  from storage_key_naming [of st_slashes "js ''photo.tar.PNG''" ?n reply_ok] h(1)
  have a: "object_key st_slashes (js ''photo.tar.PNG'') ?n
           = normalized_prefix (prefix st_slashes) @ number_toString ?n
             @ (if extension (js ''photo.tar.PNG'') = [] then [] else dot # extension (js ''photo.tar.PNG''))"
    "hd (strip_slashes (prefix st_slashes)) \<noteq> slash \<and> last (strip_slashes (prefix st_slashes)) \<noteq> slash"
    by blast+
  from storage_key_naming [of "st0\<lparr>prefix := js ''///''\<rparr>" "js ''README''" ?n reply_ok]
  have b: "object_key (st0\<lparr>prefix := js ''///''\<rparr>) (js ''README'') ?n
           = normalized_prefix (prefix (st0\<lparr>prefix := js ''///''\<rparr>)) @ number_toString ?n
             @ (if extension (js ''README'') = [] then [] else dot # extension (js ''README''))"
    by blast
  from storage_key_naming [of st_slashes "js ''x.''" ?n reply_ok]
  have c: "object_key st_slashes (js ''x.'') ?n
           = normalized_prefix (prefix st_slashes) @ number_toString ?n
             @ (if extension (js ''x.'') = [] then [] else dot # extension (js ''x.''))"
    by blast
  have "object_key st_slashes (js ''photo.tar.PNG'') ?n = js ''img/a/1700000000000.PNG''"
    by (simp only: a(1) v)
  moreover have "object_key (st0\<lparr>prefix := js ''///''\<rparr>) (js ''README'') ?n = js ''1700000000000''"
    by (simp only: b v)
  moreover have "object_key st_slashes (js ''x.'') ?n = js ''img/a/1700000000000''"
    by (simp only: c v)
  ultimately show ?thesis using h a(2) by blast
qed

end
